theory Spec2Isabelle
  imports Complex_Main "HOL-Library.Log_Nat" "HOL-Library.Word"
begin

section \<open>JavaScript numbers\<close>

text \<open>
  A TypeScript \<open>number\<close> is an IEEE 754 binary64 value. A finite value is kept as the real
  number it denotes; the two infinities and NaN are separate constructors. The two zeros are
  identified: no expression of \<open>App.tsx\<close> modelled here divides by a quantity that can be
  the negative zero, so its sign is never observed.
\<close>

datatype number = Num real | PosInf | NegInf | NaN

text \<open>Round half to even, the tie rule of the default IEEE rounding mode.\<close>

definition rhe :: "real \<Rightarrow> int" where
  "rhe x = (let f = \<lfloor>x\<rfloor>; d = x - of_int f in
     if d < 1 / 2 then f else if 1 / 2 < d then f + 1 else if even f then f else f + 1)"

text \<open>The binary exponent of a positive real: \<open>2 powi expo a \<le> a < 2 powi (expo a + 1)\<close>.\<close>

definition expo :: "real \<Rightarrow> int" where
  "expo a = (if 1 \<le> a then bitlen \<lfloor>a\<rfloor> - 1 else - bitlen (\<lceil>1 / a\<rceil> - 1))"

text \<open>
  Rounding of an exact result to binary64: 53 significant bits, exponents from \<open>-1022\<close>
  (below which the spacing stays \<open>2 powi (-1074)\<close>, the subnormal range), and overflow
  to an infinity once the rounded magnitude reaches \<open>2 ^ 1024\<close>.
\<close>

definition round_double :: "real \<Rightarrow> number" where
  "round_double x =
     (if x = 0 then Num 0
      else let a = \<bar>x\<bar>;
               e = max (expo a) (- 1022);
               q = 2 powi (e - 52);
               y = of_int (rhe (a / q)) * q
           in if 2 ^ 1024 \<le> y then (if 0 < x then PosInf else NegInf)
              else Num (sgn x * y))"

text \<open>A decimal literal of the source denotes the double nearest to it.\<close>

definition lit :: "real \<Rightarrow> number" where
  "lit x = round_double x"

fun is_neg :: "number \<Rightarrow> bool" where
  "is_neg (Num x) = (x < 0)"
| "is_neg NegInf = True"
| "is_neg PosInf = False"
| "is_neg NaN = False"

fun js_mul :: "number \<Rightarrow> number \<Rightarrow> number" where
  "js_mul (Num x) (Num y) = round_double (x * y)"
| "js_mul a b =
     (if a = NaN \<or> b = NaN \<or> a = Num 0 \<or> b = Num 0 then NaN
      else if is_neg a = is_neg b then PosInf else NegInf)"

fun js_div :: "number \<Rightarrow> number \<Rightarrow> number" where
  "js_div (Num x) (Num y) =
     (if y = 0 then (if x = 0 then NaN else if 0 < x then PosInf else NegInf)
      else round_double (x / y))"
| "js_div (Num x) PosInf = Num 0"
| "js_div (Num x) NegInf = Num 0"
| "js_div a b =
     (if a = NaN \<or> b = NaN \<or> b = PosInf \<or> b = NegInf then NaN
      else if is_neg a = is_neg b then PosInf else NegInf)"

fun js_sub :: "number \<Rightarrow> number \<Rightarrow> number" where
  "js_sub (Num x) (Num y) = round_double (x - y)"
| "js_sub NaN b = NaN"
| "js_sub a NaN = NaN"
| "js_sub PosInf b = (if b = PosInf then NaN else PosInf)"
| "js_sub NegInf b = (if b = NegInf then NaN else NegInf)"
| "js_sub (Num x) PosInf = NegInf"
| "js_sub (Num x) NegInf = PosInf"

fun js_add :: "number \<Rightarrow> number \<Rightarrow> number" where
  "js_add (Num x) (Num y) = round_double (x + y)"
| "js_add NaN b = NaN"
| "js_add a NaN = NaN"
| "js_add PosInf b = (if b = NegInf then NaN else PosInf)"
| "js_add NegInf b = (if b = PosInf then NaN else NegInf)"
| "js_add (Num x) PosInf = PosInf"
| "js_add (Num x) NegInf = NegInf"

text \<open>\<open>Math.max\<close> of two numbers.\<close>

fun js_max :: "number \<Rightarrow> number \<Rightarrow> number" where
  "js_max NaN b = NaN"
| "js_max a NaN = NaN"
| "js_max PosInf b = PosInf"
| "js_max a PosInf = PosInf"
| "js_max NegInf b = b"
| "js_max a NegInf = a"
| "js_max (Num x) (Num y) = Num (max x y)"

text \<open>The order of numbers; nothing is comparable with NaN.\<close>

fun js_le :: "number \<Rightarrow> number \<Rightarrow> bool" where
  "js_le NaN b = False"
| "js_le a NaN = False"
| "js_le NegInf b = True"
| "js_le a PosInf = True"
| "js_le PosInf b = False"
| "js_le a NegInf = False"
| "js_le (Num x) (Num y) = (x \<le> y)"

fun isNaN :: "number \<Rightarrow> bool" where
  "isNaN NaN = True"
| "isNaN n = False"

text \<open>The comparison \<open>num > 0\<close> of the recomputation effect.\<close>

fun gt_zero :: "number \<Rightarrow> bool" where
  "gt_zero (Num x) = (0 < x)"
| "gt_zero PosInf = True"
| "gt_zero NegInf = False"
| "gt_zero NaN = False"

text \<open>A number is finite and within \<open>tol\<close> of the real \<open>v\<close>.\<close>

definition approx :: "number \<Rightarrow> real \<Rightarrow> real \<Rightarrow> bool" where
  "approx n v tol = (case n of Num x \<Rightarrow> \<bar>x - v\<bar> \<le> tol | _ \<Rightarrow> False)"

section \<open>The price engine\<close>

datatype mode = Original | New

record CalculationRow =
  row_id :: string
  label :: string
  reductionPercent :: number
  inputMrp :: number
  newMrp :: number
  intermediateTradePrice :: number
  finalTradePrice :: number
  gstAmount :: number

record CalculationResult =
  row12 :: CalculationRow
  row18 :: CalculationRow

text \<open>\<open>processRow\<close> of \<open>calculate\<close>; the mode is the variable it closes over.\<close>

definition processRow :: "mode \<Rightarrow> number \<Rightarrow> number \<Rightarrow> string \<Rightarrow> CalculationRow" where
  "processRow m val rp lbl =
     (let originalMrp =
            (if m = Original then val
             else js_div val (js_sub (lit 1) (js_div rp (lit 100))));
          newMrp' =
            (if m = Original then js_mul val (js_sub (lit 1) (js_div rp (lit 100)))
             else val);
          intermediatePrice = js_mul newMrp' (js_div (lit 100) (lit 105));
          finalTradePrice' = js_mul intermediatePrice (lit (80 / 100));
          gstAmount' = js_mul finalTradePrice' (lit (5 / 100))
      in \<lparr> row_id = lbl, label = lbl, reductionPercent = rp, inputMrp = originalMrp,
           newMrp = newMrp', intermediateTradePrice = intermediatePrice,
           finalTradePrice = finalTradePrice', gstAmount = gstAmount' \<rparr>)"

definition computeRows :: "number \<Rightarrow> mode \<Rightarrow> CalculationResult" where
  "computeRows amount m =
     \<lparr> row12 = processRow m amount (lit (625 / 100)) ''12% GST Rule'',
       row18 = processRow m amount (lit (1102 / 100)) ''18% GST Rule'' \<rparr>"

section \<open>Application state\<close>

datatype js_error = TypeError | NotSupportedError

datatype effect =
    TrackStop nat
  | ContextClose nat
  | SessionClose nat
  | SourceStop nat
  | SourceStart nat number
  | ToolResponse string string string

text \<open>
  The React state and the refs of the component. A ref to a browser object is a handle or
  null; \<open>sources\<close> is the \<open>Set\<close> of playing nodes in insertion order; \<open>trace\<close> records
  the calls made on browser objects and on the live session, in order.
\<close>

record app =
  mrpInput :: string
  calculationMode :: mode
  results :: "CalculationResult option"
  aiAnalysis :: string
  isLiveActive :: bool
  isAiSpeaking :: bool
  audioContext :: "nat option"
  inputAudioContext :: "nat option"
  session :: "nat option"
  mediaStream :: "nat option"
  nextStartTime :: number
  sources :: "nat list"
  trace :: "effect list"

definition then_do :: "js_error + 'a \<Rightarrow> ('a \<Rightarrow> js_error + 'b) \<Rightarrow> js_error + 'b" where
  "then_do r f = (case r of Inl e \<Rightarrow> Inl e | Inr x \<Rightarrow> f x)"

text \<open>A method call on a ref's current value throws a TypeError when the value is null.\<close>

definition call_on :: "nat option \<Rightarrow> (nat \<Rightarrow> effect) \<Rightarrow> app \<Rightarrow> js_error + app" where
  "call_on r ef s =
     (case r of None \<Rightarrow> Inl TypeError
      | Some h \<Rightarrow> Inr (s\<lparr>trace := trace s @ [ef h]\<rparr>))"

definition stopAudio :: "app \<Rightarrow> js_error + app" where
  "stopAudio s0 =
     then_do (if mediaStream s0 \<noteq> None
              then then_do (call_on (mediaStream s0) TrackStop s0)
                     (\<lambda>s. Inr (s\<lparr>mediaStream := None\<rparr>))
              else Inr s0) (\<lambda>s1.
     then_do (if inputAudioContext s1 \<noteq> None
              then then_do (call_on (inputAudioContext s1) ContextClose s1)
                     (\<lambda>s. Inr (s\<lparr>inputAudioContext := None\<rparr>))
              else Inr s1) (\<lambda>s2.
     then_do (if audioContext s2 \<noteq> None
              then then_do (call_on (audioContext s2) ContextClose s2)
                     (\<lambda>s. Inr (s\<lparr>audioContext := None\<rparr>))
              else Inr s2) (\<lambda>s3.
     then_do (if session s3 \<noteq> None
              then then_do (call_on (session s3) SessionClose s3)
                     (\<lambda>s. Inr (s\<lparr>session := None\<rparr>))
              else Inr s3) (\<lambda>s4.
     Inr (s4\<lparr>trace := trace s4 @ map SourceStop (sources s4), sources := [],
             isLiveActive := False, isAiSpeaking := False\<rparr>)))))"

text \<open>The \<open>onclose\<close> and \<open>onerror\<close> callbacks of the live session.\<close>

definition onclose :: "app \<Rightarrow> js_error + app" where
  "onclose s = Inr (s\<lparr>isLiveActive := False\<rparr>)"

definition onerror :: "app \<Rightarrow> js_error + app" where
  "onerror s = stopAudio s"

text \<open>All four handles null and no playing node left.\<close>

definition released :: "app \<Rightarrow> bool" where
  "released s \<longleftrightarrow>
     mediaStream s = None \<and> inputAudioContext s = None \<and> audioContext s = None \<and>
     session s = None \<and> sources s = []"

section \<open>Input parsing and number rendering\<close>

definition is_digit :: "char \<Rightarrow> bool" where
  "is_digit c \<longleftrightarrow> c \<in> set ''0123456789''"

definition digit_val :: "char \<Rightarrow> nat" where
  "digit_val c = length (takeWhile (\<lambda>d. d \<noteq> c) ''0123456789'')"

definition digits_val :: "string \<Rightarrow> nat" where
  "digits_val ds = foldl (\<lambda>n c. 10 * n + digit_val c) 0 ds"

text \<open>
  The white space that \<open>parseFloat\<close> skips: space, TAB, LF, VT, FF, CR and the no-break
  space. A character of a string is one code unit below 256; the white space above that
  range has no counterpart here.
\<close>

definition is_ws :: "char \<Rightarrow> bool" where
  "is_ws c \<longleftrightarrow>
     c \<in> set [CHR 0x20, CHR 0x09, CHR 0x0A, CHR 0x0B, CHR 0x0C, CHR 0x0D, CHR 0xA0]"

definition split_sign :: "string \<Rightarrow> bool \<times> string" where
  "split_sign t =
     (case t of [] \<Rightarrow> (False, t)
      | c # r \<Rightarrow> if c = CHR ''-'' then (True, r) else if c = CHR ''+'' then (False, r)
                 else (False, t))"

text \<open>The exponent part of a decimal literal: \<open>e\<close> or \<open>E\<close>, a sign, at least one digit.\<close>

definition exponent_part :: "string \<Rightarrow> int" where
  "exponent_part r =
     (case r of [] \<Rightarrow> 0
      | c # r' \<Rightarrow>
          if c = CHR ''e'' \<or> c = CHR ''E'' then
            (let (eneg, r3) = split_sign r'; ed = takeWhile is_digit r3
             in if ed = [] then 0
                else if eneg then - int (digits_val ed) else int (digits_val ed))
          else 0)"

text \<open>
  \<open>parseFloat\<close>: the longest prefix, after leading white space, that is a decimal literal;
  NaN when there is none. The value is the double nearest to the literal.
\<close>

definition parseFloat :: "string \<Rightarrow> number" where
  "parseFloat s =
     (let (neg, u) = split_sign (dropWhile is_ws s)
      in if take 8 u = ''Infinity'' then (if neg then NegInf else PosInf)
         else
           let ip = takeWhile is_digit u;
               r1 = dropWhile is_digit u;
               (fp, r2) = (case r1 of [] \<Rightarrow> ([], r1)
                           | c # r \<Rightarrow> if c = CHR ''.''
                                       then (takeWhile is_digit r, dropWhile is_digit r)
                                       else ([], r1))
           in if ip = [] \<and> fp = [] then NaN
              else round_double ((if neg then - 1 else 1) * real (digits_val (ip @ fp))
                                 * 10 powi (exponent_part r2 - int (length fp))))"

definition digit_char :: "nat \<Rightarrow> char" where
  "digit_char n = ''0123456789'' ! n"

fun nat_to_digits :: "nat \<Rightarrow> string" where
  "nat_to_digits n =
     (if n < 10 then [digit_char n] else nat_to_digits (n div 10) @ [digit_char (n mod 10)])"

declare nat_to_digits.simps [simp del]

text \<open>
  \<open>Number.prototype.toString\<close>. A positive integer below \<open>2 ^ 53\<close> prints as its
  decimal digits and a negative number as \<open>-\<close> followed by the rendering of its
  magnitude. The digit string of any other positive value (the shortest one that reads back
  as the same double, in positional or exponent notation) is the parameter \<open>repr\<close>; the
  function of the language itself is \<open>js_repr\<close>, defined below.
\<close>

definition pos_toString :: "(real \<Rightarrow> string) \<Rightarrow> real \<Rightarrow> string" where
  "pos_toString repr x =
     (if of_int \<lfloor>x\<rfloor> = x \<and> x < 2 ^ 53 then nat_to_digits (nat \<lfloor>x\<rfloor>) else repr x)"

definition number_toString :: "(real \<Rightarrow> string) \<Rightarrow> number \<Rightarrow> string" where
  "number_toString repr n =
     (case n of
        NaN \<Rightarrow> ''NaN''
      | PosInf \<Rightarrow> ''Infinity''
      | NegInf \<Rightarrow> ''-Infinity''
      | Num x \<Rightarrow> if x = 0 then ''0''
                 else if x < 0 then ''-'' @ pos_toString repr (- x)
                 else pos_toString repr x)"

text \<open>
  The digits of \<open>Number::toString\<close> for a positive finite value \<open>x\<close>: the integer \<open>s\<close>
  with the fewest digits for which \<open>s * 10 powi q\<close> reads back as \<open>x\<close>, and of those the one
  nearest to \<open>x\<close>.
\<close>

text \<open>The decimal exponent of a positive real: \<open>10 powi (dec_exp x - 1) \<le> x < 10 powi dec_exp x\<close>.\<close>

function dec_exp :: "real \<Rightarrow> int" where
  "dec_exp x =
     (if x \<le> 0 then 0
      else if 10 \<le> x then dec_exp (x / 10) + 1
      else if x < 1 then dec_exp (x * 10) - 1
      else 1)"
  by pat_completeness auto

termination
proof (relation "measure (\<lambda>x. nat \<lfloor>x\<rfloor> + 10 * nat \<lceil>1 / x\<rceil>)")
  show "wf (measure (\<lambda>x::real. nat \<lfloor>x\<rfloor> + 10 * nat \<lceil>1 / x\<rceil>))" by simp
next
  fix x :: real
  assume "\<not> x \<le> 0" and x: "10 \<le> x"
  have "1 / x \<le> 1" "0 < 1 / x" "1 / (x / 10) \<le> 1" "0 < 1 / (x / 10)"
    using x by (simp_all add: field_simps)
  then have c: "\<lceil>1 / x\<rceil> = 1" "\<lceil>1 / (x / 10)\<rceil> = 1" by (simp_all add: ceiling_eq_iff)
  have "\<lfloor>x / 10\<rfloor> < \<lfloor>x\<rfloor>" using x by linarith
  moreover have "0 < \<lfloor>x\<rfloor>" using x by linarith
  ultimately show "(x / 10, x) \<in> measure (\<lambda>x. nat \<lfloor>x\<rfloor> + 10 * nat \<lceil>1 / x\<rceil>)"
    by (simp only: in_measure c)
next
  fix x :: real
  assume x0: "\<not> x \<le> 0" and "\<not> 10 \<le> x" and x1: "x < 1"
  define y where "y = 1 / x"
  have y: "1 < y" using x0 x1 by (simp add: y_def field_simps)
  have yy: "1 / (x * 10) = y / 10" by (simp add: y_def)
  have f: "\<lfloor>x\<rfloor> = 0" using x0 x1 by linarith
  have g: "\<lfloor>x * 10\<rfloor> \<le> 9" "0 \<le> \<lfloor>x * 10\<rfloor>" using x0 x1 by linarith+
  have "\<lceil>y / 10\<rceil> < \<lceil>y\<rceil>"
  proof (cases "y \<le> 10")
    case True
    then have "\<lceil>y / 10\<rceil> \<le> 1" by (simp add: ceiling_le_iff)
    moreover have "1 < \<lceil>y\<rceil>" using y by (simp add: less_ceiling_iff)
    ultimately show ?thesis by linarith
  next
    case False
    have "of_int \<lceil>y / 10\<rceil> < y / 10 + 1" by linarith
    also have "\<dots> < y" using False by simp
    also have "\<dots> \<le> of_int \<lceil>y\<rceil>" by (rule le_of_int_ceiling)
    finally show ?thesis by simp
  qed
  moreover have "0 < \<lceil>y / 10\<rceil>" using y by (simp add: less_ceiling_iff)
  ultimately show "(x * 10, x) \<in> measure (\<lambda>x. nat \<lfloor>x\<rfloor> + 10 * nat \<lceil>1 / x\<rceil>)"
    using g unfolding in_measure yy f y_def [symmetric] by linarith
qed

declare dec_exp.simps [simp del]

text \<open>The text of \<open>s * 10 powi q\<close> reads back as \<open>x\<close>.\<close>

definition reads_as :: "real \<Rightarrow> int \<Rightarrow> int \<Rightarrow> bool" where
  "reads_as x s q \<longleftrightarrow> round_double (of_int s * 10 powi q) = Num x"

text \<open>
  The two multiples of \<open>10 powi q\<close> around \<open>x\<close>: the nearer one that reads back as \<open>x\<close>,
  the even one at equal distance.
\<close>

definition pick :: "real \<Rightarrow> int \<Rightarrow> int option" where
  "pick x q =
     (let g = 10 powi q; lo = \<lfloor>x / g\<rfloor>; hi = lo + 1;
          dlo = x / g - of_int lo; dhi = of_int hi - x / g
      in if dlo < dhi \<or> (dlo = dhi \<and> even lo)
         then (if reads_as x lo q then Some lo else if reads_as x hi q then Some hi else None)
         else (if reads_as x hi q then Some hi else if reads_as x lo q then Some lo else None))"

text \<open>
  The search over the number of digits \<open>k\<close>, from one digit on. With \<open>1074\<close> digits after
  the leading one every double is written out exactly, which ends the search.
\<close>

function shortest :: "real \<Rightarrow> int \<Rightarrow> nat \<Rightarrow> int \<times> int" where
  "shortest x n0 k =
     (case pick x (n0 - int k) of
        Some s \<Rightarrow> (s, n0 - int k)
      | None \<Rightarrow> if n0 + 1074 \<le> int k then (\<lfloor>x / 10 powi (n0 - int k)\<rfloor>, n0 - int k)
                else shortest x n0 (Suc k))"
  by pat_completeness auto

termination
  by (relation "measure (\<lambda>(x, n0, k). nat (n0 + 1074 - int k))") simp_all

declare shortest.simps [simp del]

definition strip_zeros :: "string \<Rightarrow> string" where
  "strip_zeros ds = rev (dropWhile (\<lambda>c. c = CHR ''0'') (rev ds))"

text \<open>The exponent of the scientific notation: a sign, always written, and the digits.\<close>

definition exp_digits :: "int \<Rightarrow> string" where
  "exp_digits e = (if e < 0 then ''-'' else ''+'') @ nat_to_digits (nat \<bar>e\<bar>)"

text \<open>
  The notation for the digits \<open>ds\<close> with the decimal point after the \<open>n\<close>-th digit:
  positional for \<open>-6 < n \<le> 21\<close>, scientific otherwise.
\<close>

definition format_digits :: "string \<Rightarrow> int \<Rightarrow> string" where
  "format_digits ds n =
     (let k = int (length ds)
      in if k \<le> n \<and> n \<le> 21 then ds @ replicate (nat (n - k)) CHR ''0''
         else if 0 < n \<and> n \<le> 21 then take (nat n) ds @ ''.'' @ drop (nat n) ds
         else if - 6 < n \<and> n \<le> 0 then ''0.'' @ replicate (nat (- n)) CHR ''0'' @ ds
         else if k = 1 then ds @ ''e'' @ exp_digits (n - 1)
         else take 1 ds @ ''.'' @ drop 1 ds @ ''e'' @ exp_digits (n - 1))"

definition js_repr :: "real \<Rightarrow> string" where
  "js_repr x =
     (let (s, q) = shortest x (dec_exp x) 1;
          ds0 = nat_to_digits (nat s)
      in format_digits (strip_zeros ds0) (q + int (length ds0)))"

text \<open>
  The values a \<open>number\<close> can take: a finite one is a double, which rounding leaves as it
  is.
\<close>

fun is_double :: "number \<Rightarrow> bool" where
  "is_double (Num x) = (round_double x = Num x)"
| "is_double n = True"

section \<open>Calculator state changes\<close>

text \<open>
  \<open>calculate\<close>, and the effect that runs it whenever the amount text or the mode has
  changed.
\<close>

definition calculate :: "number \<Rightarrow> mode \<Rightarrow> app \<Rightarrow> app" where
  "calculate amount m s = s\<lparr>results := Some (computeRows amount m), aiAnalysis := []\<rparr>"

definition recompute :: "app \<Rightarrow> app" where
  "recompute s =
     (let num = parseFloat (mrpInput s)
      in if \<not> isNaN num \<and> gt_zero num then calculate num (calculationMode s) s
         else s\<lparr>results := None\<rparr>)"

text \<open>The test \<open>/^\d*\.?\d*$/\<close> of the manual input handler.\<close>

definition decimal_pattern :: "string \<Rightarrow> bool" where
  "decimal_pattern v =
     (let r = dropWhile is_digit v;
          r' = (case r of [] \<Rightarrow> r | c # t \<Rightarrow> if c = CHR ''.'' then t else r)
      in dropWhile is_digit r' = [])"

definition handleInputChange :: "string \<Rightarrow> app \<Rightarrow> app" where
  "handleInputChange v s = (if v = [] \<or> decimal_pattern v then s\<lparr>mrpInput := v\<rparr> else s)"

text \<open>The two buttons of the mode toggle call \<open>setCalculationMode\<close>.\<close>

definition setCalculationMode :: "mode \<Rightarrow> app \<Rightarrow> app" where
  "setCalculationMode m s = s\<lparr>calculationMode := m\<rparr>"

section \<open>Tool calls\<close>

text \<open>
  The arguments of a function call come from the remote side as JSON, typed \<open>any\<close> by the
  handler. Arrays are left out of the model.
\<close>

datatype jsval = JUndefined | JNull | JBool bool | JNumber number | JString string | JObject

record FunctionCall =
  fc_id :: string
  fc_name :: string
  fc_args :: "(string \<times> jsval) list option"

text \<open>Reading a property: a TypeError on \<open>undefined\<close>, \<open>undefined\<close> for a missing key.\<close>

definition get_prop :: "(string \<times> jsval) list option \<Rightarrow> string \<Rightarrow> js_error + jsval" where
  "get_prop args k =
     (case args of None \<Rightarrow> Inl TypeError
      | Some kvs \<Rightarrow> (case map_of kvs k of None \<Rightarrow> Inr JUndefined | Some v \<Rightarrow> Inr v))"

fun js_toString :: "(real \<Rightarrow> string) \<Rightarrow> jsval \<Rightarrow> js_error + string" where
  "js_toString repr JUndefined = Inl TypeError"
| "js_toString repr JNull = Inl TypeError"
| "js_toString repr (JBool b) = Inr (if b then ''true'' else ''false'')"
| "js_toString repr (JNumber n) = Inr (number_toString repr n)"
| "js_toString repr (JString t) = Inr t"
| "js_toString repr JObject = Inr ''[object Object]''"

text \<open>The check \<open>mode === 'original' || mode === 'new'\<close> and the text of a mode.\<close>

fun parse_mode :: "jsval \<Rightarrow> mode option" where
  "parse_mode (JString t) =
     (if t = ''original'' then Some Original else if t = ''new'' then Some New else None)"
| "parse_mode v = None"

fun mode_name :: "mode \<Rightarrow> string" where
  "mode_name Original = ''original''"
| "mode_name New = ''new''"

text \<open>The body of the loop over \<open>msg.toolCall.functionCalls\<close>.\<close>

definition handle_call :: "(real \<Rightarrow> string) \<Rightarrow> FunctionCall \<Rightarrow> app \<Rightarrow> js_error + app" where
  "handle_call repr fc s =
     (if fc_name fc = ''updateMrp'' then
        then_do (get_prop (fc_args fc) ''amount'') (\<lambda>newAmount.
        then_do (js_toString repr newAmount) (\<lambda>txt.
          Inr (s\<lparr>mrpInput := txt,
                 trace := trace s @ [ToolResponse (fc_id fc) (fc_name fc) ''ok, updated value'']\<rparr>)))
      else if fc_name fc = ''switchMode'' then
        then_do (get_prop (fc_args fc) ''mode'') (\<lambda>md.
          case parse_mode md of
            Some m \<Rightarrow>
              Inr (s\<lparr>calculationMode := m,
                     trace := trace s @
                       [ToolResponse (fc_id fc) (fc_name fc)
                          (''switched to '' @ mode_name m @ '' mode'')]\<rparr>)
          | None \<Rightarrow> Inr s)
      else Inr s)"

text \<open>
  The loop itself. An exception leaves the handler at once: the calls before it have taken
  effect, the rest of the message is not looked at.
\<close>

fun run_calls :: "(real \<Rightarrow> string) \<Rightarrow> FunctionCall list \<Rightarrow> app \<Rightarrow> js_error option \<times> app" where
  "run_calls repr [] s = (None, s)"
| "run_calls repr (fc # fcs) s =
     (case handle_call repr fc s of
        Inl e \<Rightarrow> (Some e, s)
      | Inr s' \<Rightarrow> run_calls repr fcs s')"

definition onmessage_toolCall ::
  "(real \<Rightarrow> string) \<Rightarrow> FunctionCall list option \<Rightarrow> app \<Rightarrow> js_error option \<times> app" where
  "onmessage_toolCall repr tc s = (case tc of None \<Rightarrow> (None, s) | Some fcs \<Rightarrow> run_calls repr fcs s)"

text \<open>The acknowledgments sent for the call with a given id.\<close>

definition acks_for :: "string \<Rightarrow> effect list \<Rightarrow> effect list" where
  "acks_for i tr = filter (\<lambda>e. case e of ToolResponse j _ _ \<Rightarrow> j = i | _ \<Rightarrow> False) tr"

section \<open>Audio\<close>

text \<open>
  Capture: \<open>pcmData[i] = inputData[i] * 32768\<close>. The sample is a 32-bit float, so the
  product is exact; storing it into an \<open>Int16Array\<close> truncates towards zero and keeps
  the low 16 bits.
\<close>

definition js_trunc :: "real \<Rightarrow> int" where
  "js_trunc x = (if 0 \<le> x then \<lfloor>x\<rfloor> else \<lceil>x\<rceil>)"

definition toInt16 :: "real \<Rightarrow> 16 word" where
  "toInt16 x = word_of_int (js_trunc x)"

definition pcm_encode :: "real list \<Rightarrow> 16 word list" where
  "pcm_encode inputData = map (\<lambda>x. toInt16 (x * 32768)) inputData"

record AudioBuffer =
  channelData :: "real list list"
  duration :: number

text \<open>
  \<open>decodeAudioData\<close>, from the 16-bit view of the received bytes. \<open>createBuffer\<close>
  refuses a buffer with no channel or no frame. The duration of a buffer is the double
  quotient of its frame count and its sample rate.
\<close>

definition decodeAudioData :: "16 word list \<Rightarrow> nat \<Rightarrow> nat \<Rightarrow> js_error + AudioBuffer" where
  "decodeAudioData dataInt16 sampleRate numChannels =
     (let frameCount = length dataInt16 div numChannels
      in if numChannels = 0 \<or> frameCount = 0 then Inl NotSupportedError
         else Inr \<lparr> channelData =
                      map (\<lambda>channel.
                             map (\<lambda>i. real_of_int (sint (dataInt16 ! (i * numChannels + channel)))
                                        / 32768)
                               [0..<frameCount])
                        [0..<numChannels],
                    duration = js_div (Num (real frameCount)) (Num (real sampleRate)) \<rparr>)"

text \<open>
  Playback scheduling of one decoded buffer on the node \<open>src\<close> at clock time \<open>now\<close>:
  \<open>Math.max\<close> of two doubles, and one double addition.
\<close>

definition schedule :: "number \<Rightarrow> number \<Rightarrow> nat \<Rightarrow> app \<Rightarrow> app" where
  "schedule now dur src s =
     (let startTime = js_max now (nextStartTime s)
      in s\<lparr>trace := trace s @ [SourceStart src startTime],
           nextStartTime := js_add startTime dur,
           sources := (if src \<in> set (sources s) then sources s else sources s @ [src])\<rparr>)"

text \<open>
  The audio half of \<open>onmessage\<close>: \<open>audio\<close> is the 16-bit view of the payload when the
  message carries one. An exception thrown while decoding leaves the speaking flag set.
\<close>

definition onmessage_audio ::
  "16 word list option \<Rightarrow> number \<Rightarrow> nat \<Rightarrow> app \<Rightarrow> js_error option \<times> app" where
  "onmessage_audio audio now src s =
     (case audio of None \<Rightarrow> (None, s)
      | Some pcm \<Rightarrow>
          if audioContext s = None then (None, s)
          else (case decodeAudioData pcm 24000 1 of
                  Inl e \<Rightarrow> (Some e, s\<lparr>isAiSpeaking := True\<rparr>)
                | Inr buffer \<Rightarrow>
                    (None, schedule now (duration buffer) src (s\<lparr>isAiSpeaking := True\<rparr>))))"

text \<open>
  A run of audio messages, each with its payload, the clock time at which it is handled and
  the node created for it.
\<close>

fun play_all :: "(16 word list \<times> number \<times> nat) list \<Rightarrow> app \<Rightarrow> app" where
  "play_all [] s = s"
| "play_all ((pcm, now, src) # ms) s = play_all ms (snd (onmessage_audio (Some pcm) now src s))"

text \<open>The start times handed to \<open>source.start\<close>, in order.\<close>

fun start_times :: "effect list \<Rightarrow> number list" where
  "start_times [] = []"
| "start_times (SourceStart src t # es) = t # start_times es"
| "start_times (e # es) = start_times es"

text \<open>The start times that a run added to the trace.\<close>

definition scheduled_starts :: "(16 word list \<times> number \<times> nat) list \<Rightarrow> app \<Rightarrow> number list" where
  "scheduled_starts ms s =
     drop (length (start_times (trace s))) (start_times (trace (play_all ms s)))"

text \<open>The duration of the buffer decoded from a payload: its frames at 24000 Hz.\<close>

definition buffer_duration :: "16 word list \<Rightarrow> number" where
  "buffer_duration pcm = js_div (Num (real (length pcm))) (Num 24000)"

text \<open>
  The start times of a run as the scheduling rule gives them, from the value of
  \<open>nextStartTime\<close> before the run: each buffer starts at the later of its arrival time
  and the double sum of the start and the duration of the buffer before it.
\<close>

fun planned_starts :: "number \<Rightarrow> (16 word list \<times> number \<times> nat) list \<Rightarrow> number list" where
  "planned_starts nst [] = []"
| "planned_starts nst ((pcm, now, src) # ms) =
     js_max now nst # planned_starts (js_add (js_max now nst) (buffer_duration pcm)) ms"

section \<open>Two states\<close>

text \<open>The state of a freshly mounted component.\<close>

definition initial_app :: app where
  "initial_app =
     \<lparr> mrpInput = ''100'', calculationMode = Original, results = None, aiAnalysis = [],
       isLiveActive = False, isAiSpeaking = False, audioContext = None,
       inputAudioContext = None, session = None, mediaStream = None, nextStartTime = Num 0,
       sources = [], trace = [] \<rparr>"

text \<open>
  A running voice session: the microphone stream is handle 1, the capture and playback
  contexts are 2 and 3, the live session is 4, and one buffer plays on node 5.
\<close>

definition live_app :: app where
  "live_app =
     initial_app \<lparr> isLiveActive := True, isAiSpeaking := True, audioContext := Some 3,
       inputAudioContext := Some 2, session := Some 4, mediaStream := Some 1,
       nextStartTime := Num 2, sources := [5] \<rparr>"

section \<open>Rounding\<close>

lemma rhe_err: "\<bar>of_int (rhe x) - x\<bar> \<le> 1 / 2"
  unfolding rhe_def Let_def by (auto; linarith)

lemma rhe_eqI:
  assumes "\<bar>x - of_int m\<bar> < 1 / 2"
  shows "rhe x = m"
proof (cases "of_int m \<le> x")
  case True
  with assms have "\<lfloor>x\<rfloor> = m" by linarith
  with assms True show ?thesis by (simp add: rhe_def Let_def)
next
  case False
  with assms have f: "\<lfloor>x\<rfloor> = m - 1" by linarith
  with assms False show ?thesis by (simp add: rhe_def Let_def)
qed

lemma rhe_tie:
  assumes "x = of_int m + 1 / 2"
  shows "rhe x = (if even m then m else m + 1)"
proof -
  from assms have "\<lfloor>x\<rfloor> = m" by linarith
  with assms show ?thesis by (simp add: rhe_def Let_def)
qed

lemma pow2_of_int_le:
  "(2::int) ^ k \<le> n \<Longrightarrow> (2::real) ^ k \<le> of_int n"
  by (metis of_int_le_iff of_int_numeral of_int_power)

lemma expo_bounds:
  assumes "0 < a"
  shows "2 powi expo a \<le> a \<and> a < 2 powi (expo a + 1)"
proof (cases "1 \<le> a")
  case True
  define n where "n = \<lfloor>a\<rfloor>"
  have n: "0 < n" using True by (simp add: n_def)
  have e: "expo a = bitlen n - 1" using True by (simp add: expo_def n_def)
  have b1: "1 \<le> bitlen n" using n by (simp add: bitlen_alt_def)
  from bitlen_bounds [OF n] have lo: "2 ^ nat (bitlen n - 1) \<le> n" and hi: "n < 2 ^ nat (bitlen n)"
    by simp_all
  have "(2::real) powi (bitlen n - 1) = 2 ^ nat (bitlen n - 1)"
    using b1 by (simp add: power_int_nonneg_exp)
  also have "\<dots> \<le> of_int n" using lo by (rule pow2_of_int_le)
  also have "\<dots> \<le> a" by (simp add: n_def)
  finally have A: "2 powi expo a \<le> a" by (simp add: e)
  have "n + 1 \<le> 2 ^ nat (bitlen n)" using hi by simp
  then have "real_of_int (n + 1) \<le> 2 ^ nat (bitlen n)"
    by (metis of_int_le_iff of_int_numeral of_int_power)
  moreover have "a < real_of_int (n + 1)" unfolding n_def by linarith
  moreover have "(2::real) powi (bitlen n - 1 + 1) = 2 ^ nat (bitlen n)"
    using b1 by (simp add: power_int_nonneg_exp)
  ultimately have "a < 2 powi (expo a + 1)" by (simp add: e)
  with A show ?thesis by simp
next
  case False
  define m where "m = \<lceil>1 / a\<rceil> - 1"
  have a1: "1 < 1 / a" using False assms by simp
  then have m: "0 < m" unfolding m_def by linarith
  have e: "expo a = - bitlen m" using False by (simp add: expo_def m_def)
  have b1: "1 \<le> bitlen m" using m by (simp add: bitlen_alt_def)
  from bitlen_bounds [OF m] have lo: "2 ^ nat (bitlen m - 1) \<le> m" and hi: "m < 2 ^ nat (bitlen m)"
    by simp_all
  have "real_of_int m < 1 / a" unfolding m_def by linarith
  moreover have "(2::real) ^ nat (bitlen m - 1) \<le> of_int m"
    using lo by (rule pow2_of_int_le)
  ultimately have "(2::real) ^ nat (bitlen m - 1) < 1 / a" by linarith
  then have "a < 1 / 2 ^ nat (bitlen m - 1)"
    using assms by (simp add: field_simps)
  moreover have "(2::real) powi (- bitlen m + 1) = 1 / 2 ^ nat (bitlen m - 1)"
  proof -
    have "(2::real) powi (- bitlen m + 1) = 2 powi (- (bitlen m - 1))" by simp
    also have "\<dots> = 1 / 2 powi (bitlen m - 1)" by (rule power_int_minus_divide)
    also have "\<dots> = 1 / 2 ^ nat (bitlen m - 1)" using b1 by (simp add: power_int_nonneg_exp)
    finally show ?thesis .
  qed
  ultimately have B: "a < 2 powi (expo a + 1)" by (simp add: e)
  have "m + 1 \<le> 2 ^ nat (bitlen m)" using hi by simp
  then have "real_of_int (m + 1) \<le> 2 ^ nat (bitlen m)"
    by (metis of_int_le_iff of_int_numeral of_int_power)
  moreover have "1 / a \<le> real_of_int (m + 1)" unfolding m_def by linarith
  ultimately have "1 / a \<le> 2 ^ nat (bitlen m)" by linarith
  then have "1 / 2 ^ nat (bitlen m) \<le> a"
    using assms by (simp add: field_simps)
  moreover have "(2::real) powi (- bitlen m) = 1 / 2 ^ nat (bitlen m)"
  proof -
    have "(2::real) powi (- bitlen m) = 1 / 2 powi (bitlen m)" by (rule power_int_minus_divide)
    also have "\<dots> = 1 / 2 ^ nat (bitlen m)" using b1 by (simp add: power_int_nonneg_exp)
    finally show ?thesis .
  qed
  ultimately have "2 powi expo a \<le> a" by (simp add: e)
  with B show ?thesis by simp
qed

lemma expo_unique:
  assumes "0 < a" "2 powi e \<le> a" "a < 2 powi (e + 1)"
  shows "expo a = e"
proof (rule ccontr)
  assume ne: "expo a \<noteq> e"
  from expo_bounds [OF assms(1)] have lo: "2 powi expo a \<le> a" and hi: "a < 2 powi (expo a + 1)"
    by simp_all
  show False
  proof (cases "expo a < e")
    case True
    then have "(2::real) powi (expo a + 1) \<le> 2 powi e"
      by (intro power_int_increasing) auto
    with hi assms(2) show False by linarith
  next
    case False
    with ne have "e + 1 \<le> expo a" by simp
    then have "(2::real) powi (e + 1) \<le> 2 powi expo a"
      by (intro power_int_increasing) auto
    with lo assms(3) show False by linarith
  qed
qed

text \<open>Evaluation of a rounding from the exponent and the significand of the result.\<close>

lemma round_double_pos:
  assumes "0 < x" "2 powi e \<le> x" "x < 2 powi (e + 1)"
    and "rhe (x / 2 powi (max e (- 1022) - 52)) = m"
    and "of_int m * 2 powi (max e (- 1022) - 52) < (2::real) ^ 1024"
  shows "round_double x = Num (of_int m * 2 powi (max e (- 1022) - 52))"
  using assms expo_unique [OF assms(1,2,3)]
  by (simp add: round_double_def Let_def)

lemma round_double_eval:
  assumes "0 < x" "2 powi e \<le> x" "x < 2 powi (e + 1)" "- 1022 \<le> e"
    and "\<bar>x / 2 powi (e - 52) - of_int m\<bar> < 1 / 2"
    and "y = of_int m * 2 powi (e - 52)" "y < 2 ^ 1024"
  shows "round_double x = Num y"
proof -
  have me: "max e (- 1022) = e" using assms(4) by simp
  have "rhe (x / 2 powi (max e (- 1022) - 52)) = m"
    unfolding me using assms(5) by (rule rhe_eqI)
  from round_double_pos [OF assms(1,2,3) this] assms(6,7) show ?thesis
    unfolding me by simp
qed

lemma lit_eval:
  assumes "0 < x" "2 powi e \<le> x" "x < 2 powi (e + 1)" "- 1022 \<le> e"
    and "\<bar>x / 2 powi (e - 52) - of_int m\<bar> < 1 / 2"
    and "y = of_int m * 2 powi (e - 52)" "y < 2 ^ 1024"
  shows "lit x = Num y"
  unfolding lit_def using assms by (rule round_double_eval)

lemma js_mul_eval:
  assumes "0 < a * b" "2 powi e \<le> a * b" "a * b < 2 powi (e + 1)" "- 1022 \<le> e"
    and "\<bar>a * b / 2 powi (e - 52) - of_int m\<bar> < 1 / 2"
    and "y = of_int m * 2 powi (e - 52)" "y < 2 ^ 1024"
  shows "js_mul (Num a) (Num b) = Num y"
  using round_double_eval [OF assms] by simp

lemma js_sub_eval:
  assumes "0 < a - b" "2 powi e \<le> a - b" "a - b < 2 powi (e + 1)" "- 1022 \<le> e"
    and "\<bar>(a - b) / 2 powi (e - 52) - of_int m\<bar> < 1 / 2"
    and "y = of_int m * 2 powi (e - 52)" "y < 2 ^ 1024"
  shows "js_sub (Num a) (Num b) = Num y"
  using round_double_eval [OF assms] by simp

lemma js_add_eval:
  assumes "0 < a + b" "2 powi e \<le> a + b" "a + b < 2 powi (e + 1)" "- 1022 \<le> e"
    and "\<bar>(a + b) / 2 powi (e - 52) - of_int m\<bar> < 1 / 2"
    and "y = of_int m * 2 powi (e - 52)" "y < 2 ^ 1024"
  shows "js_add (Num a) (Num b) = Num y"
  using round_double_eval [OF assms] by simp

lemma js_div_eval:
  assumes "0 < a / b" "2 powi e \<le> a / b" "a / b < 2 powi (e + 1)" "- 1022 \<le> e"
    and "\<bar>a / b / 2 powi (e - 52) - of_int m\<bar> < 1 / 2"
    and "y = of_int m * 2 powi (e - 52)" "y < 2 ^ 1024"
  shows "js_div (Num a) (Num b) = Num y"
proof -
  from assms(1) have "b \<noteq> 0" by auto
  then show ?thesis using round_double_eval [OF assms] by simp
qed

text \<open>
  In the normal range, and short of overflow, a rounding is finite and off by at most one
  part in \<open>2 ^ 53\<close>.
\<close>

lemma round_double_normal_err:
  assumes lo: "2 powi (- 1022) \<le> \<bar>x\<bar>" and hi: "\<bar>x\<bar> < 2 ^ 1024 - 2 ^ 970"
  shows "\<exists>y. round_double x = Num y \<and> \<bar>y - x\<bar> \<le> \<bar>x\<bar> / 2 ^ 53"
proof -
  define a where "a = \<bar>x\<bar>"
  define e where "e = expo a"
  define q :: real where "q = 2 powi (e - 52)"
  define m where "m = rhe (a / q)"
  have "(0::real) < 2 powi (- 1022)" by simp
  with lo have a0: "0 < a" unfolding a_def by linarith
  then have x0: "x \<noteq> 0" unfolding a_def by auto
  from expo_bounds [OF a0] have b1: "2 powi e \<le> a" and b2: "a < 2 powi (e + 1)"
    unfolding e_def by simp_all
  have e_lo: "- 1022 \<le> e"
  proof (rule ccontr)
    assume "\<not> - 1022 \<le> e"
    then have "e + 1 \<le> - 1022" by simp
    then have "(2::real) powi (e + 1) \<le> 2 powi (- 1022)"
      by (intro power_int_increasing) auto
    with b2 lo show False unfolding a_def by linarith
  qed
  have e_hi: "e \<le> 1023"
  proof (rule ccontr)
    assume "\<not> e \<le> 1023"
    then have "1024 \<le> e" by simp
    then have "(2::real) powi 1024 \<le> 2 powi e"
      by (intro power_int_increasing) auto
    moreover have "(2::real) powi 1024 = 2 ^ 1024" by simp
    moreover have "(0::real) < 2 ^ 970" by simp
    ultimately show False using b1 hi unfolding a_def by linarith
  qed
  have q0: "0 < q" unfolding q_def by simp
  have q2: "q = 2 powi e / 2 ^ 52"
    unfolding q_def by (simp add: power_int_diff)
  have q_hi: "q \<le> 2 ^ 971"
  proof -
    have "q \<le> 2 powi (1023 - 52)"
      unfolding q_def using e_hi by (intro power_int_increasing) auto
    then show ?thesis by simp
  qed
  have "\<bar>real_of_int m - a / q\<bar> \<le> 1 / 2" unfolding m_def by (rule rhe_err)
  then have "\<bar>real_of_int m - a / q\<bar> * q \<le> 1 / 2 * q"
    using q0 by (intro mult_right_mono) auto
  moreover have "\<bar>real_of_int m - a / q\<bar> * q = \<bar>real_of_int m * q - a\<bar>"
  proof -
    have "(real_of_int m - a / q) * q = real_of_int m * q - a"
      using q0 by (simp add: left_diff_distrib)
    then have "\<bar>real_of_int m * q - a\<bar> = \<bar>real_of_int m - a / q\<bar> * \<bar>q\<bar>"
      by (simp only: abs_mult [symmetric])
    with q0 show ?thesis by simp
  qed
  ultimately have err: "\<bar>real_of_int m * q - a\<bar> \<le> q / 2" by simp
  have "q / 2 = 2 powi e / 2 ^ 53" unfolding q2 by simp
  also have "\<dots> \<le> a / 2 ^ 53" using b1 by (simp add: divide_right_mono)
  finally have rel: "q / 2 \<le> a / 2 ^ 53" .
  have fin: "real_of_int m * q < 2 ^ 1024"
  proof -
    have "real_of_int m * q \<le> a + q / 2" using err by linarith
    also have "\<dots> \<le> a + 2 ^ 970" using q_hi by simp
    also have "\<dots> < 2 ^ 1024" using hi unfolding a_def by linarith
    finally show ?thesis .
  qed
  have me: "max e (- 1022) = e" using e_lo by simp
  have rd: "round_double x = Num (sgn x * (real_of_int m * q))"
    using x0 fin
    by (simp add: round_double_def Let_def a_def [symmetric] e_def [symmetric] me
          q_def [symmetric] m_def [symmetric])
  have "\<bar>sgn x * (real_of_int m * q) - x\<bar> = \<bar>real_of_int m * q - a\<bar>"
  proof (cases "0 < x")
    case True
    then show ?thesis by (simp add: a_def)
  next
    case False
    with x0 have "x < 0" by simp
    then have "sgn x * (real_of_int m * q) - x = - (real_of_int m * q - a)"
      by (simp add: a_def)
    then show ?thesis by (simp only: abs_minus)
  qed
  with err rel rd show ?thesis unfolding a_def by auto
qed


section \<open>The fields of a row\<close>

lemma newMrp_Original:
  "newMrp (processRow Original val rp l) = js_mul val (js_sub (lit 1) (js_div rp (lit 100)))"
  by (simp add: processRow_def Let_def)

lemma inputMrp_Original: "inputMrp (processRow Original val rp l) = val"
  by (simp add: processRow_def Let_def)

lemma newMrp_New: "newMrp (processRow New val rp l) = val"
  by (simp add: processRow_def Let_def)

lemma inputMrp_New:
  "inputMrp (processRow New val rp l) = js_div val (js_sub (lit 1) (js_div rp (lit 100)))"
  by (simp add: processRow_def Let_def)

lemma intermediateTradePrice_row:
  "intermediateTradePrice (processRow m val rp l) =
     js_mul (newMrp (processRow m val rp l)) (js_div (lit 100) (lit 105))"
  by (simp add: processRow_def Let_def)

lemma finalTradePrice_row:
  "finalTradePrice (processRow m val rp l) =
     js_mul (intermediateTradePrice (processRow m val rp l)) (lit (80 / 100))"
  by (simp add: processRow_def Let_def)

lemma gstAmount_row:
  "gstAmount (processRow m val rp l) =
     js_mul (finalTradePrice (processRow m val rp l)) (lit (5 / 100))"
  by (simp add: processRow_def Let_def)

lemma row12_computeRows:
  "row12 (computeRows amount m) = processRow m amount (lit (625 / 100)) ''12% GST Rule''"
  by (simp add: computeRows_def)

lemma row18_computeRows:
  "row18 (computeRows amount m) = processRow m amount (lit (1102 / 100)) ''18% GST Rule''"
  by (simp add: computeRows_def)

section \<open>The fixed rules at sample amounts\<close>

lemma lit_1: "lit 1 = Num 1"
  by (rule lit_eval [where e = "0" and m = 4503599627370496]) simp_all

lemma lit_100: "lit 100 = Num 100"
  by (rule lit_eval [where e = "6" and m = 7036874417766400]) simp_all

lemma lit_105: "lit 105 = Num 105"
  by (rule lit_eval [where e = "6" and m = 7388718138654720]) simp_all

lemma lit_625: "lit (625 / 100) = Num (25 / 4)"
  by (rule lit_eval [where e = "2" and m = 7036874417766400]) simp_all

lemma lit_1102: "lit (1102 / 100) = Num (3101854243351429 / 281474976710656)"
  by (rule lit_eval [where e = "3" and m = 6203708486702858]) simp_all

lemma lit_080: "lit (80 / 100) = Num (3602879701896397 / 4503599627370496)"
  by (rule lit_eval [where e = "- 1" and m = 7205759403792794]) simp_all

lemma lit_005: "lit (5 / 100) = Num (3602879701896397 / 72057594037927936)"
  by (rule lit_eval [where e = "- 5" and m = 7205759403792794]) simp_all

lemma factor_105: "js_div (Num 100) (Num 105) = Num (4289142502257615 / 4503599627370496)"
  by (rule js_div_eval [where e = "- 1" and m = 8578285004515230]) simp_all

lemma ratio_12: "js_div (Num (25 / 4)) (Num 100) = Num (1 / 16)"
  by (rule js_div_eval [where e = "- 4" and m = 4503599627370496]) simp_all

lemma keep_12: "js_sub (Num 1) (Num (1 / 16)) = Num (15 / 16)"
  by (rule js_sub_eval [where e = "- 1" and m = 8444249301319680]) simp_all

lemma new_12: "js_mul (Num 100) (Num (15 / 16)) = Num (375 / 4)"
  by (rule js_mul_eval [where e = "6" and m = 6597069766656000]) simp_all

lemma inter_12: "js_mul (Num (375 / 4)) (Num (4289142502257615 / 4503599627370496)) = Num (1570730896822857 / 17592186044416)"
  by (rule js_mul_eval [where e = "6" and m = 6282923587291428]) simp_all

lemma final_12: "js_mul (Num (1570730896822857 / 17592186044416)) (Num (3602879701896397 / 4503599627370496)) = Num (5026338869833143 / 70368744177664)"
  by (rule js_mul_eval [where e = "6" and m = 5026338869833143]) simp_all

lemma gst_12: "js_mul (Num (5026338869833143 / 70368744177664)) (Num (3602879701896397 / 72057594037927936)) = Num (8042142191733029 / 2251799813685248)"
  by (rule js_mul_eval [where e = "1" and m = 8042142191733029]) simp_all

lemma ratio_18: "js_div (Num (3101854243351429 / 281474976710656)) (Num 100) = Num (3970373431489829 / 36028797018963968)"
  by (rule js_div_eval [where e = "- 4" and m = 7940746862979658]) simp_all

lemma keep_18: "js_sub (Num 1) (Num (3970373431489829 / 36028797018963968)) = Num (8014605896868535 / 9007199254740992)"
  by (rule js_sub_eval [where e = "- 1" and m = 8014605896868535]) simp_all

lemma new_18: "js_mul (Num 100) (Num (8014605896868535 / 9007199254740992)) = Num (6261410856928543 / 70368744177664)"
  by (rule js_mul_eval [where e = "6" and m = 6261410856928543]) simp_all

lemma inter_18: "js_mul (Num (6261410856928543 / 70368744177664)) (Num (4289142502257615 / 4503599627370496)) = Num (5963248435170041 / 70368744177664)"
  by (rule js_mul_eval [where e = "6" and m = 5963248435170041]) simp_all

lemma final_18: "js_mul (Num (5963248435170041 / 70368744177664)) (Num (3602879701896397 / 4503599627370496)) = Num (4770598748136033 / 70368744177664)"
  by (rule js_mul_eval [where e = "6" and m = 4770598748136033]) simp_all

lemma gst_18: "js_mul (Num (4770598748136033 / 70368744177664)) (Num (3602879701896397 / 72057594037927936)) = Num (7632957997017653 / 2251799813685248)"
  by (rule js_mul_eval [where e = "1" and m = 7632957997017653]) simp_all

lemma new_12_250: "js_mul (Num 250) (Num (15 / 16)) = Num (1875 / 8)"
  by (rule js_mul_eval [where e = "7" and m = 8246337208320000]) simp_all

lemma inter_12_250: "js_mul (Num (1875 / 8)) (Num (4289142502257615 / 4503599627370496)) = Num (7853654484114285 / 35184372088832)"
  by (rule js_mul_eval [where e = "7" and m = 7853654484114285]) simp_all

lemma final_12_250: "js_mul (Num (7853654484114285 / 35184372088832)) (Num (3602879701896397 / 4503599627370496)) = Num (1570730896822857 / 8796093022208)"
  by (rule js_mul_eval [where e = "7" and m = 6282923587291428]) simp_all

lemma gst_12_250: "js_mul (Num (1570730896822857 / 8796093022208)) (Num (3602879701896397 / 72057594037927936)) = Num (5026338869833143 / 562949953421312)"
  by (rule js_mul_eval [where e = "3" and m = 5026338869833143]) simp_all

lemma new_18_250: "js_mul (Num 250) (Num (8014605896868535 / 9007199254740992)) = Num (7826763571160679 / 35184372088832)"
  by (rule js_mul_eval [where e = "7" and m = 7826763571160679]) simp_all

lemma inter_18_250: "js_mul (Num (7826763571160679 / 35184372088832)) (Num (4289142502257615 / 4503599627370496)) = Num (7454060543962551 / 35184372088832)"
  by (rule js_mul_eval [where e = "7" and m = 7454060543962551]) simp_all

lemma final_18_250: "js_mul (Num (7454060543962551 / 35184372088832)) (Num (3602879701896397 / 4503599627370496)) = Num (5963248435170041 / 35184372088832)"
  by (rule js_mul_eval [where e = "7" and m = 5963248435170041]) simp_all

lemma gst_18_250: "js_mul (Num (5963248435170041 / 35184372088832)) (Num (3602879701896397 / 72057594037927936)) = Num (4770598748136033 / 562949953421312)"
  by (rule js_mul_eval [where e = "3" and m = 4770598748136033]) simp_all

section \<open>The quotes for amount 100\<close>

lemma row12_at_100:
  "newMrp (row12 (computeRows (Num 100) Original)) = Num (375 / 4)"
  "intermediateTradePrice (row12 (computeRows (Num 100) Original))
     = Num (1570730896822857 / 17592186044416)"
  "finalTradePrice (row12 (computeRows (Num 100) Original))
     = Num (5026338869833143 / 70368744177664)"
  "gstAmount (row12 (computeRows (Num 100) Original))
     = Num (8042142191733029 / 2251799813685248)"
  by (simp_all only: row12_computeRows gstAmount_row finalTradePrice_row
        intermediateTradePrice_row newMrp_Original
        lit_1 lit_100 lit_105 lit_625 lit_080 lit_005 factor_105
        ratio_12 keep_12 new_12 inter_12 final_12 gst_12)

lemma row18_at_100:
  "newMrp (row18 (computeRows (Num 100) Original)) = Num (6261410856928543 / 70368744177664)"
  by (simp only: row18_computeRows newMrp_Original lit_1 lit_100 lit_1102 ratio_18 keep_18 new_18)

text \<open>
  C2. In "original" mode with amount 100 the row of the 6.25 rule has new MRP 93.75,
  intermediate trade price about 89.2857142857, final trade price about 71.42857142857
  and GST amount about 3.571428571, each to the digits shown; the row of the 11.02 rule
  has the new MRP that the literal 88.98 denotes.
\<close>

theorem quotes_for_100:
  "newMrp (row12 (computeRows (Num 100) Original)) = Num (9375 / 100) \<and>
   approx (intermediateTradePrice (row12 (computeRows (Num 100) Original)))
     (892857142857 / 10 ^ 10) (5 / 10 ^ 11) \<and>
   approx (finalTradePrice (row12 (computeRows (Num 100) Original)))
     (7142857142857 / 10 ^ 11) (5 / 10 ^ 12) \<and>
   approx (gstAmount (row12 (computeRows (Num 100) Original)))
     (3571428571 / 10 ^ 9) (5 / 10 ^ 10) \<and>
   newMrp (row18 (computeRows (Num 100) Original)) = lit (8898 / 100) \<and>
   approx (newMrp (row18 (computeRows (Num 100) Original))) (8898 / 100) (1 / 10 ^ 13)"
proof -
  have l: "lit (8898 / 100) = Num (6261410856928543 / 70368744177664)"
    by (rule lit_eval [where e = 6 and m = 6261410856928543]) simp_all
  show ?thesis
    unfolding row12_at_100 row18_at_100 l by (simp add: approx_def)
qed

section \<open>The factor of a rule\<close>

lemma rhe_le:
  assumes "x \<le> of_int N"
  shows "rhe x \<le> N"
proof (cases "\<lfloor>x\<rfloor> = N")
  case True
  with assms have "x = of_int N" by linarith
  then show ?thesis by (simp add: rhe_def Let_def)
next
  case False
  moreover from assms have "\<lfloor>x\<rfloor> \<le> N" by linarith
  ultimately have "\<lfloor>x\<rfloor> + 1 \<le> N" by simp
  then show ?thesis by (simp add: rhe_def Let_def)
qed

lemma rhe_nonneg: "0 \<le> x \<Longrightarrow> 0 \<le> rhe x"
  by (simp add: rhe_def Let_def)

text \<open>Rounding does not cross a power of two from below.\<close>

lemma round_double_le_pow2:
  assumes "0 < x" "x \<le> 2 powi k" "- 1022 \<le> k" "k \<le> 1023"
  shows "\<exists>y. round_double x = Num y \<and> 0 \<le> y \<and> y \<le> 2 powi k"
proof -
  define e where "e = max (expo x) (- 1022)"
  define q :: real where "q = 2 powi (e - 52)"
  define m where "m = rhe (x / q)"
  from expo_bounds [OF assms(1)] have b1: "2 powi expo x \<le> x" by simp
  have "expo x \<le> k"
  proof (rule ccontr)
    assume "\<not> expo x \<le> k"
    then have "k < expo x" by simp
    then have "(2::real) powi k < 2 powi expo x"
      by (intro power_int_strict_increasing) auto
    with b1 assms(2) show False by linarith
  qed
  with assms(3) have ek: "e \<le> k" by (simp add: e_def)
  have q0: "0 < q" by (simp add: q_def)
  define N :: int where "N = 2 ^ nat (k - e + 52)"
  have Nq: "of_int N * q = 2 powi k"
  proof -
    have "real_of_int N = 2 powi (k - e + 52)"
      using ek by (simp add: N_def power_int_nonneg_exp)
    then have "of_int N * q = 2 powi (k - e + 52) * 2 powi (e - 52)" by (simp add: q_def)
    also have "\<dots> = 2 powi ((k - e + 52) + (e - 52))"
      by (rule power_int_add [symmetric]) simp
    finally show ?thesis by simp
  qed
  have "x / q \<le> of_int N"
    using assms(2) q0 Nq by (simp add: pos_divide_le_eq)
  then have mN: "m \<le> N" unfolding m_def by (rule rhe_le)
  have m0: "0 \<le> m" unfolding m_def using assms(1) q0 by (intro rhe_nonneg) simp
  have y_hi: "of_int m * q \<le> 2 powi k"
  proof -
    have "of_int m * q \<le> of_int N * q" using mN q0 by simp
    then show ?thesis by (simp only: Nq)
  qed
  have "(2::real) powi k \<le> 2 powi 1023" using assms(4) by (intro power_int_increasing) auto
  moreover have "(2::real) powi 1023 < 2 ^ 1024" by simp
  ultimately have fin: "of_int m * q < 2 ^ 1024" using y_hi by linarith
  have "round_double x = Num (of_int m * q)"
    using assms(1) fin
    by (simp add: round_double_def Let_def e_def [symmetric] q_def [symmetric] m_def [symmetric])
  moreover have "0 \<le> of_int m * q" using m0 q0 by simp
  ultimately show ?thesis using y_hi by blast
qed

text \<open>Between 64 and 128 the doubles are the multiples of \<open>1 / 2 ^ 46\<close>.\<close>

lemma double_below_100:
  assumes "round_double r = Num r" "0 < r" "r < 100"
  shows "r \<le> 100 - 1 / 2 ^ 46"
proof (cases "r < 64")
  case True
  then show ?thesis by simp
next
  case False
  then have r64: "64 \<le> r" by simp
  have e: "expo r = 6"
    by (rule expo_unique) (use r64 assms in simp_all)
  define M where "M = rhe (r / 2 powi (- 46))"
  have "round_double r = (if (2::real) ^ 1024 \<le> of_int M * 2 powi (- 46) then PosInf
                          else Num (of_int M * 2 powi (- 46)))"
    using assms(2) by (simp add: round_double_def Let_def e M_def)
  with assms(1) have rM: "r = of_int M * 2 powi (- 46)"
    by (simp split: if_splits)
  then have rM': "r * 70368744177664 = of_int M" by simp
  have "r * 70368744177664 < 7036874417766400" using assms(3) by simp
  then have "real_of_int M < 7036874417766400" by (simp only: rM')
  then have "M < 7036874417766400" by simp
  then have "M \<le> 7036874417766399" by simp
  then have "real_of_int M \<le> 7036874417766399" by simp
  then have "r * 70368744177664 \<le> 7036874417766399" by (simp only: rM')
  then show ?thesis by (simp add: field_simps)
qed

text \<open>
  For a double \<open>r\<close> strictly between 0 and 100 the factor \<open>1 - r / 100\<close> evaluates
  to a double in \<open>(0, 1]\<close>.
\<close>

lemma factor_in_range:
  assumes "round_double r = Num r" "0 < r" "r < 100"
  shows "\<exists>c. js_sub (lit 1) (js_div (Num r) (lit 100)) = Num c \<and> 0 < c \<and> c \<le> 1"
proof -
  define u :: real where "u = 1 / 2 ^ 53"
  define x where "x = r / 100"
  have x0: "0 < x" using assms(2) by (simp add: x_def)
  have p: "(2::real) powi (- 1022) \<le> 1 / 2 ^ 55" "(1::real) < 2 ^ 1024 - 2 ^ 970" by simp_all
  \<comment> \<open>the quotient rounds to some \<open>y\<close> with \<open>0 \<le> y \<le> 1 - 1 / 2 ^ 55\<close>\<close>
  have "\<exists>y. round_double x = Num y \<and> 0 \<le> y \<and> y \<le> 1 - 1 / 2 ^ 55"
  proof (cases "x \<le> 1 / 2")
    case True
    then have "x \<le> 2 powi (- 1)" by simp
    from round_double_le_pow2 [OF x0 this]
    obtain y where "round_double x = Num y" "0 \<le> y" "y \<le> 2 powi (- 1)" by auto
    moreover have "(2::real) powi (- 1) \<le> 1 - 1 / 2 ^ 55" by simp
    ultimately show ?thesis by (intro exI [of _ y]) simp
  next
    case False
    then have xh: "1 / 2 < x" by simp
    from double_below_100 [OF assms] have "x \<le> (100 - 1 / 2 ^ 46) / 100"
      unfolding x_def by (simp add: divide_right_mono)
    then have x_hi: "x \<le> 1 - 1 / (100 * 2 ^ 46)" by (simp add: field_simps)
    have "2 powi (- 1022) \<le> \<bar>x\<bar>" using xh p(1) by simp
    moreover have "\<bar>x\<bar> < 2 ^ 1024 - 2 ^ 970" using x0 x_hi p(2) by simp
    ultimately obtain y where y: "round_double x = Num y" "\<bar>y - x\<bar> \<le> \<bar>x\<bar> / 2 ^ 53"
      using round_double_normal_err by blast
    have e: "\<bar>y - x\<bar> \<le> x * u" using y(2) x0 by (simp add: u_def)
    have xu: "x * u \<le> u" using x_hi u_def by (simp add: mult_left_le_one_le)
    have "y \<le> x + u" using e xu by linarith
    also have "\<dots> \<le> 1 - 1 / (100 * 2 ^ 46) + u" using x_hi by simp
    also have "\<dots> \<le> 1 - 1 / 2 ^ 55" by (simp add: u_def)
    finally have "y \<le> 1 - 1 / 2 ^ 55" .
    moreover have "x * u \<le> x" using x0 by (simp add: u_def mult_left_le)
    then have "0 \<le> y" using e x0 by linarith
    ultimately show ?thesis using y(1) by blast
  qed
  then obtain y where y: "round_double x = Num y" "0 \<le> y" "y \<le> 1 - 1 / 2 ^ 55" by blast
  have q: "js_div (Num r) (lit 100) = Num y"
    using y(1) by (simp add: lit_100 x_def)
  \<comment> \<open>so the difference is in the normal range and at most 1\<close>
  define z where "z = 1 - y"
  have z: "1 / 2 ^ 55 \<le> z" "z \<le> 1" using y(2,3) by (simp_all add: z_def)
  have "(0::real) < 1 / 2 ^ 55" by simp
  with z(1) have z0: "0 < z" by linarith
  have "z \<le> 2 powi 0" using z(2) by simp
  from round_double_le_pow2 [OF z0 this]
  obtain c where c: "round_double z = Num c" "c \<le> 1" by auto
  have "2 powi (- 1022) \<le> \<bar>z\<bar>" using z(1) p(1) z0 by linarith
  moreover have "\<bar>z\<bar> < 2 ^ 1024 - 2 ^ 970" using z0 z(2) p(2) by simp
  ultimately obtain c' where c': "round_double z = Num c'" "\<bar>c' - z\<bar> \<le> \<bar>z\<bar> / 2 ^ 53"
    using round_double_normal_err by blast
  from c(1) c'(1) have cc: "c' = c" by simp
  have "\<bar>c - z\<bar> \<le> z * u" using c'(2) z0 by (simp add: cc u_def)
  moreover have "z * u < z" using z0 by (simp add: u_def)
  ultimately have "0 < c" by linarith
  moreover have "js_sub (lit 1) (js_div (Num r) (lit 100)) = Num c"
    by (simp add: q lit_1 c(1) [unfolded z_def])
  ultimately show ?thesis using c(2) by blast
qed

section \<open>Round trip between the modes\<close>

lemma fixed_rule_factors:
  "js_sub (lit 1) (js_div (lit (625 / 100)) (lit 100)) = Num (15 / 16)"
  "js_sub (lit 1) (js_div (lit (1102 / 100)) (lit 100))
     = Num (8014605896868535 / 9007199254740992)"
  by (simp_all only: lit_1 lit_100 lit_625 lit_1102 ratio_12 keep_12 ratio_18 keep_18)

text \<open>
  C1, amended. Let the reduction percentage be a double \<open>r\<close> strictly between 0 and 100,
  let \<open>c\<close> be the double that \<open>1 - r / 100\<close> evaluates to, and let the amount \<open>a\<close>
  be at most \<open>2 ^ 1024 - 2 ^ 972\<close>, the largest double but one, with \<open>a * c\<close> at least
  \<open>2 powi (-1021)\<close>, so that no intermediate result is subnormal or overflows. Then the
  new MRP computed from \<open>a\<close> in "original" mode, fed back in "new" mode, gives an original
  MRP within \<open>a / 10 ^ 9\<close> of \<open>a\<close>.
\<close>

theorem roundtrip_normal_range:
  assumes r: "round_double r = Num r" "0 < r" "r < 100"
    and cr: "js_sub (lit 1) (js_div (Num r) (lit 100)) = Num c"
    and a: "2 powi (- 1021) \<le> a * c" "a \<le> 2 ^ 1024 - 2 ^ 972"
  shows "\<exists>n a'. newMrp (processRow Original (Num a) (Num r) l) = Num n \<and>
                 inputMrp (processRow New (Num n) (Num r) l) = Num a' \<and>
                 \<bar>a' - a\<bar> \<le> a / 10 ^ 9"
proof -
  from factor_in_range [OF r] cr have c: "0 < c" "c \<le> 1" by auto
  define u :: real where "u = 1 / 2 ^ 53"
  have u0: "0 < u" "u \<le> 1 / 2" "2 * u + u * u \<le> 1 / 10 ^ 9" unfolding u_def by simp_all
  have p0: "(0::real) < 2 powi (- 1021)" by simp
  have p1: "(2::real) powi (- 1022) = 2 powi (- 1021) / 2" by simp
  have ac0: "0 < a * c" using a(1) p0 by linarith
  then have a0: "0 < a" using c(1) by (simp add: zero_less_mult_iff)
  have ac_le: "a * c \<le> a" using a0 c(2) by (simp add: mult_left_le)
  have big: "((2::real) ^ 1024 - 2 ^ 972) * (1 + 1 / 2 ^ 53) < 2 ^ 1024 - 2 ^ 970" by simp
  have big0: "(2::real) ^ 1024 - 2 ^ 972 < 2 ^ 1024 - 2 ^ 970" by simp
  \<comment> \<open>the forward step\<close>
  have "2 powi (- 1022) \<le> \<bar>a * c\<bar>" using a(1) ac0 p0 p1 by simp
  moreover have "\<bar>a * c\<bar> < 2 ^ 1024 - 2 ^ 970" using ac0 ac_le a(2) big0 by simp
  ultimately obtain n where n: "round_double (a * c) = Num n"
      and n_err: "\<bar>n - a * c\<bar> \<le> \<bar>a * c\<bar> / 2 ^ 53"
    using round_double_normal_err by blast
  have n_err': "\<bar>n - a * c\<bar> \<le> a * c * u" using n_err ac0 by (simp add: u_def)
  have fwd: "newMrp (processRow Original (Num a) (Num r) l) = Num n"
    by (simp add: newMrp_Original cr n)
  \<comment> \<open>the inverse step\<close>
  have d1: "\<bar>n / c - a\<bar> \<le> a * u"
  proof -
    have "n / c - a = (n - a * c) / c" using c(1) by (simp add: field_simps)
    then have "\<bar>n / c - a\<bar> = \<bar>n - a * c\<bar> / c" using c(1) by simp
    also have "\<dots> \<le> a * u"
    proof -
      have "\<bar>n - a * c\<bar> \<le> a * u * c" using n_err' by (simp add: mult_ac)
      then show ?thesis using c(1) by (simp add: pos_divide_le_eq)
    qed
    finally show ?thesis .
  qed
  have au: "a * u \<le> a / 2" using a0 u0(2) by (simp add: field_simps)
  have x_lo: "a - a * u \<le> n / c" and x_hi: "n / c \<le> a + a * u" using d1 by linarith+
  have x0: "0 < n / c" using x_lo au a0 by linarith
  have "2 powi (- 1022) \<le> \<bar>n / c\<bar>"
  proof -
    have "2 powi (- 1021) / 2 \<le> a * c / 2" using a(1) by simp
    also have "\<dots> \<le> a / 2" using ac_le by simp
    also have "\<dots> \<le> a - a * u" using au by linarith
    also have "\<dots> \<le> n / c" by (rule x_lo)
    finally have "2 powi (- 1021) / 2 \<le> n / c" .
    then show ?thesis unfolding abs_of_pos [OF x0] p1 .
  qed
  moreover have "\<bar>n / c\<bar> < 2 ^ 1024 - 2 ^ 970"
  proof -
    have "a + a * u = a * (1 + 1 / 2 ^ 53)" by (simp add: u_def algebra_simps)
    also have "\<dots> \<le> (2 ^ 1024 - 2 ^ 972) * (1 + 1 / 2 ^ 53)"
      using a(2) by (intro mult_right_mono) auto
    finally have "n / c \<le> (2 ^ 1024 - 2 ^ 972) * (1 + 1 / 2 ^ 53)" using x_hi by linarith
    with big x0 show ?thesis by simp
  qed
  ultimately obtain a' where a': "round_double (n / c) = Num a'"
      and a'_err: "\<bar>a' - n / c\<bar> \<le> \<bar>n / c\<bar> / 2 ^ 53"
    using round_double_normal_err by blast
  have inv: "inputMrp (processRow New (Num n) (Num r) l) = Num a'"
    using c(1) by (simp add: inputMrp_New cr a')
  have "\<bar>a' - n / c\<bar> \<le> n / c * u" using a'_err x0 by (simp add: u_def)
  also have "\<dots> \<le> (a + a * u) * u" using x_hi u0(1) by (intro mult_right_mono) auto
  finally have d2: "\<bar>a' - n / c\<bar> \<le> (a + a * u) * u" .
  have "\<bar>a' - a\<bar> \<le> \<bar>a' - n / c\<bar> + \<bar>n / c - a\<bar>" by linarith
  also have "\<dots> \<le> (a + a * u) * u + a * u" using d1 d2 by linarith
  also have "\<dots> = a * (2 * u + u * u)" by (simp add: algebra_simps)
  also have "\<dots> \<le> a * (1 / 10 ^ 9)" using u0(3) a0 by (intro mult_left_mono) auto
  finally have "\<bar>a' - a\<bar> \<le> a / 10 ^ 9" by simp
  with fwd inv show ?thesis by blast
qed

lemma fixed_rules_are_doubles:
  "lit (625 / 100) = Num (25 / 4)" "round_double (25 / 4) = Num (25 / 4)"
  "lit (1102 / 100) = Num (3101854243351429 / 281474976710656)"
  "round_double (3101854243351429 / 281474976710656)
     = Num (3101854243351429 / 281474976710656)"
proof -
  show "lit (625 / 100) = Num (25 / 4)" by (rule lit_625)
  show "lit (1102 / 100) = Num (3101854243351429 / 281474976710656)" by (rule lit_1102)
  show "round_double (25 / 4) = Num (25 / 4)"
    by (rule round_double_eval [where e = 2 and m = 7036874417766400]) simp_all
  show "round_double (3101854243351429 / 281474976710656)
      = Num (3101854243351429 / 281474976710656)"
    by (rule round_double_eval [where e = 3 and m = 6203708486702858]) simp_all
qed

theorem roundtrip_normal_range_witness:
  "round_double (25 / 4) = Num (25 / 4) \<and> (0::real) < 25 / 4 \<and> (25 / 4 :: real) < 100 \<and>
   js_sub (lit 1) (js_div (Num (25 / 4)) (lit 100)) = Num (15 / 16) \<and>
   (2::real) powi (- 1021) \<le> 100 * (15 / 16) \<and> (100::real) \<le> 2 ^ 1024 - 2 ^ 972 \<and>
   (\<exists>n a'. newMrp (processRow Original (Num 100) (Num (25 / 4)) ''12% GST Rule'') = Num n \<and>
            inputMrp (processRow New (Num n) (Num (25 / 4)) ''12% GST Rule'') = Num a' \<and>
            \<bar>a' - 100\<bar> \<le> 100 / 10 ^ 9)"
proof -
  have f: "js_sub (lit 1) (js_div (Num (25 / 4)) (lit 100)) = Num (15 / 16)"
    using fixed_rule_factors(1) by (simp only: lit_625)
  have h: "(0::real) < 25 / 4" "(25 / 4 :: real) < 100"
    "(2::real) powi (- 1021) \<le> 100 * (15 / 16)" "(100::real) \<le> 2 ^ 1024 - 2 ^ 972"
    by simp_all
  from roundtrip_normal_range [OF fixed_rules_are_doubles(2) h(1,2) f h(3,4),
      of "''12% GST Rule''"]
    fixed_rules_are_doubles(2) f h
  show ?thesis by blast
qed

text \<open>
  In the subnormal range the spacing of doubles is \<open>2 powi (-1074)\<close> whatever the
  magnitude. The amount \<open>8 * 2 powi (-1074)\<close>, which prints as \<open>4e-323\<close>, times
  \<open>15 / 16\<close> is the tie \<open>7.5\<close> spacings and rounds to the even \<open>8\<close>; divided by
  \<open>15 / 16\<close> again it is about \<open>8.53\<close> spacings and rounds to \<open>9\<close>.
\<close>

lemma tiny_forward:
  "js_mul (Num (1 / 2 ^ 1071)) (Num (15 / 16)) = Num (1 / 2 ^ 1071)"
proof -
  have t: "rhe (1 / 2 ^ 1071 * (15 / 16) / 2 powi (max (- 1072) (- 1022) - 52)) = 8"
    using rhe_tie [where m = 7 and x = "15 / 2"] by simp
  have "round_double (1 / 2 ^ 1071 * (15 / 16))
      = Num (of_int 8 * 2 powi (max (- 1072) (- 1022) - 52))"
    by (rule round_double_pos [OF _ _ _ t]) simp_all
  then show ?thesis by simp
qed

lemma tiny_inverse:
  "js_div (Num (1 / 2 ^ 1071)) (Num (15 / 16)) = Num (9 / 2 ^ 1074)"
proof -
  have t: "rhe (1 / 2 ^ 1071 / (15 / 16) / 2 powi (max (- 1071) (- 1022) - 52)) = 9"
    by (rule rhe_eqI) simp
  have "round_double (1 / 2 ^ 1071 / (15 / 16))
      = Num (of_int 9 * 2 powi (max (- 1071) (- 1022) - 52))"
    by (rule round_double_pos [OF _ _ _ t]) simp_all
  then show ?thesis by simp
qed

text \<open>The amount text \<open>4e-323\<close> parses to that amount.\<close>

lemma parseFloat_tiny: "parseFloat ''4e-323'' = Num (1 / 2 ^ 1071)"
proof -
  have t: "rhe (4 / 10 ^ 323 / 2 powi (max (- 1071) (- 1022) - 52)) = 8"
    by (rule rhe_eqI) simp
  have "round_double (4 / 10 ^ 323) = Num (of_int 8 * 2 powi (max (- 1071) (- 1022) - 52))"
    by (rule round_double_pos [OF _ _ _ t]) simp_all
  then have "round_double (4 / 10 ^ 323) = Num (1 / 2 ^ 1071)" by simp
  then show ?thesis
    by (simp add: parseFloat_def split_sign_def is_ws_def is_digit_def digits_val_def
          digit_val_def exponent_part_def power_int_minus_divide)
qed

text \<open>
  C1, as the claim states it, fails for the 6.25 rule at the positive amount
  \<open>1 / 2 ^ 1071\<close>, which the amount text \<open>4e-323\<close> parses to: the round trip returns
  \<open>9 / 2 ^ 1074\<close>, one eighth more.
\<close>

theorem subnormal_roundtrip_counterexample:
  "parseFloat ''4e-323'' = Num (1 / 2 ^ 1071) \<and> gt_zero (Num (1 / 2 ^ 1071)) \<and>
   newMrp (processRow Original (Num (1 / 2 ^ 1071)) (lit (625 / 100)) ''12% GST Rule'')
     = Num (1 / 2 ^ 1071) \<and>
   inputMrp (processRow New (Num (1 / 2 ^ 1071)) (lit (625 / 100)) ''12% GST Rule'')
     = Num (9 / 2 ^ 1074) \<and>
   \<not> \<bar>9 / 2 ^ 1074 - 1 / 2 ^ 1071\<bar> \<le> (1 / 2 ^ 1071 :: real) / 10 ^ 9"
proof -
  have "newMrp (processRow Original (Num (1 / 2 ^ 1071)) (lit (625 / 100)) ''12% GST Rule'')
      = Num (1 / 2 ^ 1071)"
    by (simp only: newMrp_Original fixed_rule_factors tiny_forward)
  moreover
  have "inputMrp (processRow New (Num (1 / 2 ^ 1071)) (lit (625 / 100)) ''12% GST Rule'')
      = Num (9 / 2 ^ 1074)"
    by (simp only: inputMrp_New fixed_rule_factors tiny_inverse)
  moreover have "\<not> \<bar>9 / 2 ^ 1074 - 1 / 2 ^ 1071\<bar> \<le> (1 / 2 ^ 1071 :: real) / 10 ^ 9"
    by simp
  ultimately show ?thesis using parseFloat_tiny by simp
qed

section \<open>Teardown\<close>

lemma stopAudio_result:
  "stopAudio s = Inr (s\<lparr>trace := trace s
       @ (case mediaStream s of None \<Rightarrow> [] | Some h \<Rightarrow> [TrackStop h])
       @ (case inputAudioContext s of None \<Rightarrow> [] | Some h \<Rightarrow> [ContextClose h])
       @ (case audioContext s of None \<Rightarrow> [] | Some h \<Rightarrow> [ContextClose h])
       @ (case session s of None \<Rightarrow> [] | Some h \<Rightarrow> [SessionClose h])
       @ map SourceStop (sources s),
     mediaStream := None, inputAudioContext := None, audioContext := None, session := None,
     sources := [], isLiveActive := False, isAiSpeaking := False\<rparr>)"
  by (cases "mediaStream s"; cases "inputAudioContext s"; cases "audioContext s";
      cases "session s") (simp_all add: stopAudio_def then_do_def call_on_def)

lemma stop_unstarted:
  "released s \<Longrightarrow> stopAudio s = Inr (s\<lparr>isLiveActive := False, isAiSpeaking := False\<rparr>)"
  by (simp add: stopAudio_result released_def)

text \<open>
  C8. From any state, whether a session is running, was never started or has already been
  stopped, \<open>stopAudio\<close> returns without an exception and leaves the four handles null and
  the set of playing nodes empty; run again on its own result it returns that result
  unchanged, making no further call on any browser object.
\<close>

theorem stopAudio_idempotent:
  "\<exists>s'. stopAudio s = Inr s' \<and> released s' \<and> stopAudio s' = Inr s'"
  by (simp add: stopAudio_result released_def)

text \<open>
  C5. The \<open>onclose\<close> callback on the running session \<open>live_app\<close>: only the
  \<open>isLiveActive\<close> flag is cleared. The microphone stream, both audio contexts and the
  session handle stay set, the playing node stays in the set, and no call is made on any
  of them. The \<open>onerror\<close> callback on the same state releases them all.
\<close>

theorem onclose_keeps_resources:
  "onclose live_app = Inr (live_app\<lparr>isLiveActive := False\<rparr>) \<and>
   \<not> released (live_app\<lparr>isLiveActive := False\<rparr>) \<and>
   mediaStream (live_app\<lparr>isLiveActive := False\<rparr>) = Some 1 \<and>
   inputAudioContext (live_app\<lparr>isLiveActive := False\<rparr>) = Some 2 \<and>
   audioContext (live_app\<lparr>isLiveActive := False\<rparr>) = Some 3 \<and>
   session (live_app\<lparr>isLiveActive := False\<rparr>) = Some 4 \<and>
   sources (live_app\<lparr>isLiveActive := False\<rparr>) = [5] \<and>
   trace (live_app\<lparr>isLiveActive := False\<rparr>) = [] \<and>
   (\<exists>s'. onerror live_app = Inr s' \<and> released s')"
  by (simp add: onclose_def onerror_def stopAudio_result live_app_def initial_app_def released_def)

section \<open>Handling of tool calls\<close>

lemma handle_call_updateMrp:
  assumes "fc_name fc = ''updateMrp''" "get_prop (fc_args fc) ''amount'' = Inr (JNumber n)"
  shows "handle_call repr fc s =
     Inr (s\<lparr>mrpInput := number_toString repr n,
            trace := trace s @ [ToolResponse (fc_id fc) ''updateMrp'' ''ok, updated value'']\<rparr>)"
  using assms by (simp add: handle_call_def then_do_def)

lemma handle_call_switchMode:
  assumes "fc_name fc = ''switchMode''"
    and "get_prop (fc_args fc) ''mode'' = Inr (JString (mode_name m))"
  shows "handle_call repr fc s =
     Inr (s\<lparr>calculationMode := m,
            trace := trace s @ [ToolResponse (fc_id fc) ''switchMode''
                                  (''switched to '' @ mode_name m @ '' mode'')]\<rparr>)"
  using assms by (cases m) (simp_all add: handle_call_def then_do_def)

lemma recompute_keeps_text: "mrpInput (recompute s) = mrpInput s"
  by (simp add: recompute_def calculate_def Let_def)

text \<open>
  C9. A mode button sets the mode and nothing else. A \<open>switchMode\<close> call whose argument is
  the text of a mode sets that mode and sends its acknowledgment; the amount text, like
  every field other than the mode and the record of what was sent, is as before. The
  recomputation that follows does not touch the amount text either.
\<close>

theorem mode_switch_keeps_amount:
  "setCalculationMode m s = s\<lparr>calculationMode := m\<rparr> \<and>
   mrpInput (setCalculationMode m s) = mrpInput s \<and>
   mrpInput (recompute (setCalculationMode m s)) = mrpInput s \<and>
   (fc_name fc = ''switchMode'' \<longrightarrow>
    get_prop (fc_args fc) ''mode'' = Inr (JString (mode_name m)) \<longrightarrow>
    (case handle_call repr fc s of
       Inl e \<Rightarrow> False
     | Inr s' \<Rightarrow> mrpInput s' = mrpInput s \<and> calculationMode s' = m \<and>
         s' = s\<lparr>calculationMode := m, trace := trace s'\<rparr> \<and>
         mrpInput (recompute s') = mrpInput s))"
  by (simp add: setCalculationMode_def handle_call_switchMode recompute_keeps_text)

theorem mode_switch_keeps_amount_witness:
  "fc_name \<lparr>fc_id = ''c7'', fc_name = ''switchMode'', fc_args = Some [(''mode'', JString ''new'')]\<rparr>
     = ''switchMode'' \<and>
   get_prop (fc_args \<lparr>fc_id = ''c7'', fc_name = ''switchMode'',
                      fc_args = Some [(''mode'', JString ''new'')]\<rparr>) ''mode''
     = Inr (JString (mode_name New)) \<and>
   (case handle_call (\<lambda>x. [])
           \<lparr>fc_id = ''c7'', fc_name = ''switchMode'', fc_args = Some [(''mode'', JString ''new'')]\<rparr>
           initial_app of
      Inl e \<Rightarrow> False
    | Inr s' \<Rightarrow> mrpInput s' = ''100'' \<and> calculationMode s' = New)"
  using mode_switch_keeps_amount [of New initial_app
      "\<lparr>fc_id = ''c7'', fc_name = ''switchMode'', fc_args = Some [(''mode'', JString ''new'')]\<rparr>"
      "\<lambda>x. []"]
  by (simp add: get_prop_def initial_app_def split: sum.splits)

text \<open>
  An \<open>updateMrp\<close> call without an amount throws on \<open>toString\<close>: nothing is set or
  sent, and the calls after it in the same message are not reached.
\<close>

lemma missing_amount_throws:
  assumes "fc_name fc = ''updateMrp''" "get_prop (fc_args fc) ''amount'' = Inr JUndefined"
  shows "run_calls repr (fc # fcs) s = (Some TypeError, s)"
  using assms by (simp add: handle_call_def then_do_def)

text \<open>
  A call that matches neither branch, because its name is not handled or because the mode
  argument of a \<open>switchMode\<close> call is not the text of a mode, falls through the handler.
\<close>

lemma handle_call_falls_through:
  assumes "fc_name fc \<noteq> ''updateMrp''"
    and "fc_name fc = ''switchMode'' \<Longrightarrow> get_prop (fc_args fc) ''mode'' = Inr v"
    and "fc_name fc = ''switchMode'' \<Longrightarrow> parse_mode v = None"
  shows "handle_call repr fc s = Inr s"
  using assms by (simp add: handle_call_def then_do_def)

text \<open>
  C3. The handler sends its acknowledgment inside the two accepted branches only, and has
  no branch for the rest. From any state, a message with a single call of id \<open>i\<close>:
  a call to the undeclared tool \<open>resetAll\<close>, and \<open>switchMode\<close> with the mode \<open>both\<close>, leave
  the state as it was and send nothing, so the call is left without an acknowledgment;
  \<open>updateMrp\<close> without an amount throws before anything is sent; and \<open>updateMrp\<close> with an
  object as amount is acknowledged like a valid call, after the amount text has been set
  to \<open>[object Object]\<close>. The claim requires an acknowledgment in the first three cases and
  an unchanged amount text in the last.
\<close>

theorem malformed_calls_mishandled:
  "run_calls repr [\<lparr>fc_id = i, fc_name = ''resetAll'', fc_args = Some []\<rparr>] s = (None, s) \<and>
   run_calls repr
     [\<lparr>fc_id = i, fc_name = ''switchMode'', fc_args = Some [(''mode'', JString ''both'')]\<rparr>] s
     = (None, s) \<and>
   run_calls repr [\<lparr>fc_id = i, fc_name = ''updateMrp'', fc_args = Some []\<rparr>] s
     = (Some TypeError, s) \<and>
   run_calls repr
     [\<lparr>fc_id = i, fc_name = ''updateMrp'', fc_args = Some [(''amount'', JObject)]\<rparr>] s
     = (None, s\<lparr>mrpInput := ''[object Object]'',
                trace := trace s @ [ToolResponse i ''updateMrp'' ''ok, updated value'']\<rparr>) \<and>
   acks_for ''c1''
     (trace (snd (run_calls repr [\<lparr>fc_id = ''c1'', fc_name = ''resetAll'', fc_args = Some []\<rparr>]
                    initial_app))) = [] \<and>
   acks_for ''c1''
     (trace (snd (run_calls repr
                    [\<lparr>fc_id = ''c1'', fc_name = ''switchMode'',
                      fc_args = Some [(''mode'', JString ''both'')]\<rparr>] initial_app))) = [] \<and>
   mrpInput initial_app = ''100'' \<and>
   mrpInput (snd (run_calls repr
                    [\<lparr>fc_id = ''c1'', fc_name = ''updateMrp'',
                      fc_args = Some [(''amount'', JObject)]\<rparr>] initial_app))
     = ''[object Object]''"
  by (simp add: handle_call_def then_do_def get_prop_def initial_app_def acks_for_def)

section \<open>Playback scheduling\<close>

lemma round_double_not_NaN: "round_double x \<noteq> NaN"
  by (simp add: round_double_def Let_def)

lemma round_double_nonneg:
  assumes "0 \<le> x"
  shows "round_double x = PosInf \<or> (\<exists>y. round_double x = Num y \<and> 0 \<le> y)"
proof (cases "x = 0")
  case True
  then show ?thesis by (simp add: round_double_def)
next
  case False
  with assms have x: "0 < x" by simp
  define q :: real where "q = 2 powi (max (expo x) (- 1022) - 52)"
  have q0: "0 < q" by (simp add: q_def)
  have "0 \<le> rhe (x / q)" using x q0 by (intro rhe_nonneg) simp
  then have "0 \<le> real_of_int (rhe (x / q)) * q" using q0 by simp
  then show ?thesis using x by (simp add: round_double_def Let_def q_def [symmetric])
qed

lemma buffer_duration_cases:
  "buffer_duration pcm = PosInf \<or> (\<exists>d. buffer_duration pcm = Num d \<and> 0 \<le> d)"
proof -
  have "0 \<le> real (length pcm) / 24000" by simp
  from round_double_nonneg [OF this] show ?thesis by (simp add: buffer_duration_def)
qed

lemma js_max_finite_clock:
  assumes "b \<noteq> NaN"
  shows "js_le (Num t) (js_max (Num t) b)" and "js_le b (js_max (Num t) b)"
    and "js_max (Num t) b = PosInf \<or> (\<exists>x. js_max (Num t) b = Num x)"
  using assms by (cases b; simp)+

lemma js_add_not_NaN:
  assumes "a = PosInf \<or> (\<exists>x. a = Num x)" "d = PosInf \<or> (\<exists>y. d = Num y \<and> 0 \<le> y)"
  shows "js_add a d \<noteq> NaN"
  using assms by (auto simp add: round_double_not_NaN)

lemma schedule_step:
  "trace (schedule now dur src s) = trace s @ [SourceStart src (js_max now (nextStartTime s))]"
  "nextStartTime (schedule now dur src s) = js_add (js_max now (nextStartTime s)) dur"
  "audioContext (schedule now dur src s) = audioContext s"
  by (simp_all add: schedule_def Let_def)

lemma onmessage_audio_schedules:
  assumes "audioContext s \<noteq> None" "pcm \<noteq> []"
  shows "onmessage_audio (Some pcm) now src s =
     (None, schedule now (buffer_duration pcm) src (s\<lparr>isAiSpeaking := True\<rparr>))"
  using assms by (auto simp add: onmessage_audio_def decodeAudioData_def buffer_duration_def Let_def)

lemma start_times_append: "start_times (xs @ ys) = start_times xs @ start_times ys"
  by (induction xs rule: start_times.induct) simp_all

lemma play_all_starts:
  assumes "audioContext s \<noteq> None" "\<forall>m \<in> set ms. fst m \<noteq> []"
  shows "start_times (trace (play_all ms s))
     = start_times (trace s) @ planned_starts (nextStartTime s) ms"
  using assms
proof (induction ms arbitrary: s)
  case Nil
  show ?case by simp
next
  case (Cons m ms)
  obtain pcm now src where m: "m = (pcm, now, src)" by (cases m)
  from Cons.prems have p: "pcm \<noteq> []" and rest: "\<forall>m \<in> set ms. fst m \<noteq> []"
    by (simp_all add: m)
  let ?s = "schedule now (buffer_duration pcm) src (s\<lparr>isAiSpeaking := True\<rparr>)"
  have step: "snd (onmessage_audio (Some pcm) now src s) = ?s"
    using onmessage_audio_schedules [OF Cons.prems(1) p] by simp
  have ctx: "audioContext ?s \<noteq> None" using Cons.prems(1) by (simp add: schedule_step)
  show ?case
    by (simp add: m step Cons.IH [OF ctx rest] schedule_step start_times_append)
qed

lemma scheduled_starts_plan:
  assumes "audioContext s \<noteq> None" "\<forall>m \<in> set ms. fst m \<noteq> []"
  shows "scheduled_starts ms s = planned_starts (nextStartTime s) ms"
  by (simp add: scheduled_starts_def play_all_starts [OF assms])

lemma length_planned_starts: "length (planned_starts nst ms) = length ms"
  by (induction nst ms rule: planned_starts.induct) simp_all

lemma planned_next_not_NaN:
  assumes "nst \<noteq> NaN"
  shows "js_add (js_max (Num t) nst) (buffer_duration pcm) \<noteq> NaN"
  using js_max_finite_clock(3) [OF assms] buffer_duration_cases by (rule js_add_not_NaN)

lemma planned_not_past:
  assumes "nst \<noteq> NaN" "\<forall>m \<in> set ms. \<exists>t. fst (snd m) = Num t" "i < length ms"
  shows "js_le (fst (snd (ms ! i))) (planned_starts nst ms ! i)"
  using assms
proof (induction nst ms arbitrary: i rule: planned_starts.induct)
  case (1 nst)
  then show ?case by simp
next
  case (2 nst pcm now src ms)
  from "2.prems"(2) obtain t where t: "now = Num t" by auto
  show ?case
  proof (cases i)
    case 0
    then show ?thesis using js_max_finite_clock(1) [OF "2.prems"(1)] by (simp add: t)
  next
    case (Suc j)
    have "js_le (fst (snd (ms ! j)))
            (planned_starts (js_add (js_max now nst) (buffer_duration pcm)) ms ! j)"
      using "2.prems" Suc planned_next_not_NaN [OF "2.prems"(1)]
      by (intro "2.IH") (simp_all add: t)
    then show ?thesis by (simp add: Suc)
  qed
qed

lemma planned_after_previous:
  assumes "nst \<noteq> NaN" "\<forall>m \<in> set ms. \<exists>t. fst (snd m) = Num t" "Suc i < length ms"
  shows "js_le (js_add (planned_starts nst ms ! i) (buffer_duration (fst (ms ! i))))
           (planned_starts nst ms ! Suc i)"
  using assms
proof (induction nst ms arbitrary: i rule: planned_starts.induct)
  case (1 nst)
  then show ?case by simp
next
  case (2 nst pcm now src ms)
  from "2.prems"(2) obtain t where t: "now = Num t" by auto
  have nn: "js_add (js_max now nst) (buffer_duration pcm) \<noteq> NaN"
    using planned_next_not_NaN [OF "2.prems"(1)] by (simp add: t)
  show ?case
  proof (cases i)
    case 0
    with "2.prems"(3) obtain pcm' now' src' ms' where ms: "ms = (pcm', now', src') # ms'"
      by (cases ms) auto
    with "2.prems"(2) obtain t' where t': "now' = Num t'" by auto
    show ?thesis using js_max_finite_clock(2) [OF nn] by (simp add: 0 ms t')
  next
    case (Suc j)
    have "js_le (js_add (planned_starts (js_add (js_max now nst) (buffer_duration pcm)) ms ! j)
                   (buffer_duration (fst (ms ! j))))
            (planned_starts (js_add (js_max now nst) (buffer_duration pcm)) ms ! Suc j)"
      using "2.prems" Suc nn by (intro "2.IH") simp_all
    then show ?thesis by (simp add: Suc)
  qed
qed

text \<open>
  The duration of a buffer of fewer than \<open>2 ^ 31\<close> frames, and the double sum of a start
  time up to \<open>2 ^ 33\<close> seconds and that duration: the sum is not below the start, and
  within one part in \<open>2 ^ 53\<close> of the exact sum.
\<close>

lemma rounded_end:
  assumes "0 \<le> a" "a \<le> 2 ^ 33" "pcm \<noteq> []" "length pcm < 2 ^ 31"
  shows "\<exists>d e. buffer_duration pcm = Num d \<and> 0 < d \<and> d \<le> 2 ^ 18 \<and>
               js_add (Num a) (Num d) = Num e \<and> a \<le> e \<and>
               \<bar>e - (a + d)\<bar> \<le> (a + d) / 2 ^ 53"
proof -
  define u :: real where "u = 1 / 2 ^ 53"
  define x where "x = real (length pcm) / 24000"
  have p: "(2::real) powi (- 1022) \<le> 1 / 2 ^ 16" "(2::real) ^ 34 < 2 ^ 1024 - 2 ^ 970"
    by simp_all
  have "1 \<le> length pcm" using assms(3) by (cases pcm) simp_all
  then have l1: "1 \<le> real (length pcm)" by simp
  have l2: "real (length pcm) < 2 ^ 31"
    using assms(4) by (metis of_nat_less_iff of_nat_numeral of_nat_power)
  have x_lo: "1 / 24000 \<le> x" using l1 by (simp add: x_def divide_right_mono)
  have x_hi: "x \<le> 2 ^ 31 / 24000" using l2 by (simp add: x_def divide_right_mono)
  have x0: "0 < x" using x_lo by simp
  have "2 powi (- 1022) \<le> \<bar>x\<bar>" using x_lo p(1) by simp
  moreover have "\<bar>x\<bar> < 2 ^ 1024 - 2 ^ 970" using x0 x_hi p(2) by simp
  ultimately obtain d where d: "round_double x = Num d" and d_err: "\<bar>d - x\<bar> \<le> \<bar>x\<bar> / 2 ^ 53"
    using round_double_normal_err by blast
  have bd: "buffer_duration pcm = Num d" using d by (simp add: buffer_duration_def x_def)
  have d_err': "\<bar>d - x\<bar> \<le> x * u" using d_err x0 by (simp add: u_def)
  have xu: "x * u \<le> x / 2" using x0 by (simp add: u_def)
  have d_lo: "1 / 2 ^ 16 \<le> d"
  proof -
    have "(1 / 2 ^ 16 :: real) \<le> 1 / 24000 / 2" by simp
    also have "\<dots> \<le> x / 2" using x_lo by simp
    also have "\<dots> \<le> d" using d_err' xu by linarith
    finally show ?thesis .
  qed
  have d_hi: "d \<le> 2 ^ 18"
  proof -
    have "d \<le> x + x / 2" using d_err' xu by linarith
    also have "\<dots> \<le> 2 ^ 31 / 24000 + 2 ^ 31 / 24000 / 2" using x_hi by simp
    also have "\<dots> \<le> 2 ^ 18" by simp
    finally show ?thesis .
  qed
  have d0: "0 < d" using d_lo by (simp add: order_less_le_trans [OF _ d_lo])
  define y where "y = a + d"
  have y_lo: "1 / 2 ^ 16 \<le> y" using assms(1) d_lo by (simp add: y_def)
  have y_hi: "y \<le> 2 ^ 34" using assms(2) d_hi by (simp add: y_def)
  have y0: "0 < y" using assms(1) d0 by (simp add: y_def)
  have "2 powi (- 1022) \<le> \<bar>y\<bar>" using y_lo p(1) y0 by linarith
  moreover have "\<bar>y\<bar> < 2 ^ 1024 - 2 ^ 970" using y0 y_hi p(2) by simp
  ultimately obtain e where e: "round_double y = Num e" and e_err: "\<bar>e - y\<bar> \<le> \<bar>y\<bar> / 2 ^ 53"
    using round_double_normal_err by blast
  have e_err': "\<bar>e - y\<bar> \<le> y / 2 ^ 53" using e_err y0 by simp
  have "y / 2 ^ 53 \<le> 2 ^ 34 / 2 ^ 53" using y_hi by (simp add: divide_right_mono)
  also have "\<dots> \<le> (1 / 2 ^ 16 :: real)" by simp
  also have "\<dots> \<le> d" by (rule d_lo)
  finally have "y / 2 ^ 53 \<le> d" .
  with e_err' have "\<bar>e - y\<bar> \<le> d" by linarith
  then have "a \<le> e" unfolding y_def by linarith
  moreover have "js_add (Num a) (Num d) = Num e" using e by (simp add: y_def)
  ultimately show ?thesis using bd d0 d_hi e_err' unfolding y_def by blast
qed

text \<open>Three buffers handled at the same clock time.\<close>

lemma three_buffers:
  assumes "nst \<le> t0" "0 \<le> t0" "t0 \<le> 2 ^ 32"
    and "p1 \<noteq> []" "length p1 < 2 ^ 31" "p2 \<noteq> []" "length p2 < 2 ^ 31"
  shows "planned_starts (Num nst) [(p1, Num t0, n1), (p2, Num t0, n2), (p3, Num t0, n3)]
     = [Num t0, js_add (Num t0) (buffer_duration p1),
        js_add (js_add (Num t0) (buffer_duration p1)) (buffer_duration p2)]"
proof -
  have t33: "t0 \<le> 2 ^ 33" using assms(3) by simp
  from rounded_end [OF assms(2) t33 assms(4,5)]
  obtain d1 e1 where d1: "buffer_duration p1 = Num d1" "d1 \<le> 2 ^ 18"
      and e1: "js_add (Num t0) (Num d1) = Num e1" "t0 \<le> e1"
              "\<bar>e1 - (t0 + d1)\<bar> \<le> (t0 + d1) / 2 ^ 53"
    by blast
  have e1_0: "0 \<le> e1" using assms(2) e1(2) by simp
  have "(t0 + d1) / 2 ^ 53 \<le> (2 ^ 32 + 2 ^ 18) / 2 ^ 53"
    using assms(3) d1(2) by (simp add: divide_right_mono)
  then have "e1 \<le> (2 ^ 32 + 2 ^ 18) + (2 ^ 32 + 2 ^ 18) / 2 ^ 53"
    using e1(3) assms(3) d1(2) by linarith
  also have "\<dots> \<le> (2 ^ 33 :: real)" by simp
  finally have e1_33: "e1 \<le> 2 ^ 33" .
  from rounded_end [OF e1_0 e1_33 assms(6,7)]
  obtain d2 e2 where d2: "buffer_duration p2 = Num d2"
      and e2: "js_add (Num e1) (Num d2) = Num e2" "e1 \<le> e2"
    by blast
  have m1: "max t0 nst = t0" using assms(1) by simp
  have m2: "max t0 e1 = e1" using e1(2) by simp
  have m3: "max t0 e2 = e2" using e1(2) e2(2) by simp
  show ?thesis
    by (simp only: planned_starts.simps d1(1) d2 e1(1) e2(1) js_max.simps m1 m2 m3)
qed

text \<open>
  C7, as the claim states it, fails on the running session at clock time 3.9 (the double
  nearest to it) with two buffers of 4800 frames, a fifth of a second each: the double sum
  of the first start and duration is rounded down, so the second buffer is started
  \<open>5 / 2 ^ 54\<close> seconds before the first one ends, and not at exactly \<open>t0 + d1\<close>.
\<close>

theorem rounded_start_counterexample:
  "lit (39 / 10) = Num (8782019273372467 / 2251799813685248) \<and>
   buffer_duration (replicate 4800 0) = Num (3602879701896397 / 18014398509481984) \<and>
   scheduled_starts
     [(replicate 4800 0, lit (39 / 10), 6), (replicate 4800 0, lit (39 / 10), 7)] live_app
     = [Num (8782019273372467 / 2251799813685248), Num (2308094809027379 / 562949953421312)] \<and>
   (2308094809027379 / 562949953421312 :: real)
     < 8782019273372467 / 2251799813685248 + 3602879701896397 / 18014398509481984"
proof -
  have l: "lit (39 / 10) = Num (8782019273372467 / 2251799813685248)"
    by (rule lit_eval [where e = 1 and m = 8782019273372467]) simp_all
  have d: "buffer_duration (replicate 4800 0) = Num (3602879701896397 / 18014398509481984)"
    unfolding buffer_duration_def
    by (rule js_div_eval [where e = "- 3" and m = 7205759403792794]) simp_all
  have a: "js_add (Num (8782019273372467 / 2251799813685248))
             (Num (3602879701896397 / 18014398509481984))
      = Num (2308094809027379 / 562949953421312)"
    by (rule js_add_eval [where e = 2 and m = 4616189618054758]) simp_all
  have ctx: "audioContext live_app \<noteq> None" by (simp add: live_app_def)
  have nst: "nextStartTime live_app = Num 2" by (simp add: live_app_def)
  have ne: "\<forall>m \<in> set [(replicate 4800 (0::16 word), lit (39 / 10), 6::nat),
                        (replicate 4800 0, lit (39 / 10), 7)]. fst m \<noteq> []"
    by simp
  have m1: "max (8782019273372467 / 2251799813685248) (2::real)
      = 8782019273372467 / 2251799813685248"
    by simp
  have m2: "max (8782019273372467 / 2251799813685248 :: real)
              (2308094809027379 / 562949953421312)
      = 2308094809027379 / 562949953421312"
    by simp
  have "scheduled_starts
     [(replicate 4800 0, lit (39 / 10), 6), (replicate 4800 0, lit (39 / 10), 7)] live_app
     = planned_starts (nextStartTime live_app)
         [(replicate 4800 0, lit (39 / 10), 6), (replicate 4800 0, lit (39 / 10), 7)]"
    by (rule scheduled_starts_plan [OF ctx ne])
  also have "\<dots>
     = [Num (8782019273372467 / 2251799813685248), Num (2308094809027379 / 562949953421312)]"
    by (simp only: nst l planned_starts.simps d js_max.simps m1 a m2)
  finally show ?thesis using l d by simp
qed

text \<open>
  C7, amended. While the playback context is set, a message with a payload is started at
  \<open>Math.max\<close> of the clock and \<open>nextStartTime\<close>, and \<open>nextStartTime\<close> becomes the double
  sum of that start and the buffer's duration, the double quotient of its frames and 24000.
  Over any run of such messages with finite clock values no start lies before the arrival
  of its buffer, and each start is at or after the double sum of the start and the duration
  of the buffer before it. That sum is the end of the earlier buffer rounded to a double:
  for a start up to \<open>2 ^ 33\<close> seconds and fewer than \<open>2 ^ 31\<close> frames it is not below the
  start and differs from the exact end by at most one part in \<open>2 ^ 53\<close>. Three buffers
  arriving at the same instant \<open>t0\<close>, with \<open>nextStartTime\<close> not after \<open>t0\<close>, start at
  \<open>t0\<close>, at the double sum of \<open>t0\<close> and \<open>d1\<close>, and at the double sum of that and \<open>d2\<close>.
\<close>

theorem playback_schedule:
  assumes "audioContext s \<noteq> None"
  shows "(pcm \<noteq> [] \<longrightarrow>
            fst (onmessage_audio (Some pcm) now src s) = None \<and>
            trace (snd (onmessage_audio (Some pcm) now src s))
              = trace s @ [SourceStart src (js_max now (nextStartTime s))] \<and>
            nextStartTime (snd (onmessage_audio (Some pcm) now src s))
              = js_add (js_max now (nextStartTime s)) (buffer_duration pcm)) \<and>
         ((\<forall>m \<in> set ms. fst m \<noteq> [] \<and> (\<exists>t. fst (snd m) = Num t)) \<longrightarrow>
          nextStartTime s \<noteq> NaN \<longrightarrow>
            length (scheduled_starts ms s) = length ms \<and>
            (\<forall>i. i < length ms \<longrightarrow> js_le (fst (snd (ms ! i))) (scheduled_starts ms s ! i)) \<and>
            (\<forall>i. Suc i < length ms \<longrightarrow>
               js_le (js_add (scheduled_starts ms s ! i) (buffer_duration (fst (ms ! i))))
                 (scheduled_starts ms s ! Suc i))) \<and>
         (0 \<le> a \<longrightarrow> a \<le> 2 ^ 33 \<longrightarrow> pcm \<noteq> [] \<longrightarrow> length pcm < 2 ^ 31 \<longrightarrow>
            (\<exists>d e. buffer_duration pcm = Num d \<and> 0 < d \<and>
                    js_add (Num a) (Num d) = Num e \<and> a \<le> e \<and>
                    \<bar>e - (a + d)\<bar> \<le> (a + d) / 2 ^ 53)) \<and>
         (nextStartTime s = Num nst \<longrightarrow> nst \<le> t0 \<longrightarrow> 0 \<le> t0 \<longrightarrow> t0 \<le> 2 ^ 32 \<longrightarrow>
          p1 \<noteq> [] \<longrightarrow> length p1 < 2 ^ 31 \<longrightarrow> p2 \<noteq> [] \<longrightarrow> length p2 < 2 ^ 31 \<longrightarrow> p3 \<noteq> [] \<longrightarrow>
            scheduled_starts [(p1, Num t0, n1), (p2, Num t0, n2), (p3, Num t0, n3)] s
              = [Num t0, js_add (Num t0) (buffer_duration p1),
                 js_add (js_add (Num t0) (buffer_duration p1)) (buffer_duration p2)])"
proof (intro conjI impI)
  assume p: "pcm \<noteq> []"
  from onmessage_audio_schedules [OF assms p]
  show "fst (onmessage_audio (Some pcm) now src s) = None"
    and "trace (snd (onmessage_audio (Some pcm) now src s))
           = trace s @ [SourceStart src (js_max now (nextStartTime s))]"
    and "nextStartTime (snd (onmessage_audio (Some pcm) now src s))
           = js_add (js_max now (nextStartTime s)) (buffer_duration pcm)"
    by (simp_all add: schedule_step)
next
  assume ms: "\<forall>m \<in> set ms. fst m \<noteq> [] \<and> (\<exists>t. fst (snd m) = Num t)"
    and n: "nextStartTime s \<noteq> NaN"
  from ms have ne: "\<forall>m \<in> set ms. fst m \<noteq> []" and fin: "\<forall>m \<in> set ms. \<exists>t. fst (snd m) = Num t"
    by simp_all
  note plan = scheduled_starts_plan [OF assms ne]
  show "length (scheduled_starts ms s) = length ms"
    by (simp add: plan length_planned_starts)
  show "\<forall>i. i < length ms \<longrightarrow> js_le (fst (snd (ms ! i))) (scheduled_starts ms s ! i)"
    by (simp add: plan planned_not_past [OF n fin])
  show "\<forall>i. Suc i < length ms \<longrightarrow>
          js_le (js_add (scheduled_starts ms s ! i) (buffer_duration (fst (ms ! i))))
            (scheduled_starts ms s ! Suc i)"
    by (simp add: plan planned_after_previous [OF n fin])
next
  assume "0 \<le> a" "a \<le> 2 ^ 33" "pcm \<noteq> []" "length pcm < 2 ^ 31"
  from rounded_end [OF this]
  show "\<exists>d e. buffer_duration pcm = Num d \<and> 0 < d \<and>
               js_add (Num a) (Num d) = Num e \<and> a \<le> e \<and>
               \<bar>e - (a + d)\<bar> \<le> (a + d) / 2 ^ 53"
    by blast
next
  assume h: "nextStartTime s = Num nst" "nst \<le> t0" "0 \<le> t0" "t0 \<le> 2 ^ 32"
    "p1 \<noteq> []" "length p1 < 2 ^ 31" "p2 \<noteq> []" "length p2 < 2 ^ 31" "p3 \<noteq> []"
  have "\<forall>m \<in> set [(p1, Num t0, n1), (p2, Num t0, n2), (p3, Num t0, n3)]. fst m \<noteq> []"
    using h(5,7,9) by simp
  then have "scheduled_starts [(p1, Num t0, n1), (p2, Num t0, n2), (p3, Num t0, n3)] s
      = planned_starts (nextStartTime s) [(p1, Num t0, n1), (p2, Num t0, n2), (p3, Num t0, n3)]"
    by (rule scheduled_starts_plan [OF assms])
  also have "\<dots> = planned_starts (Num nst) [(p1, Num t0, n1), (p2, Num t0, n2), (p3, Num t0, n3)]"
    by (simp only: h(1))
  also have "\<dots> = [Num t0, js_add (Num t0) (buffer_duration p1),
                      js_add (js_add (Num t0) (buffer_duration p1)) (buffer_duration p2)]"
    by (rule three_buffers [OF h(2,3,4,5,6,7,8)])
  finally show "scheduled_starts [(p1, Num t0, n1), (p2, Num t0, n2), (p3, Num t0, n3)] s
          = [Num t0, js_add (Num t0) (buffer_duration p1),
             js_add (js_add (Num t0) (buffer_duration p1)) (buffer_duration p2)]" .
qed

theorem playback_schedule_witness:
  "audioContext live_app \<noteq> None \<and> replicate 12000 (0::16 word) \<noteq> [] \<and>
   (\<exists>t. fst (snd (replicate 12000 (0::16 word), Num 2, 6::nat)) = Num t) \<and>
   (\<exists>t. fst (snd (replicate 6000 (0::16 word), Num 2, 7::nat)) = Num t) \<and>
   (\<exists>t. fst (snd (replicate 24000 (0::16 word), Num 2, 8::nat)) = Num t) \<and>
   nextStartTime live_app \<noteq> NaN \<and>
   (1::nat) < length [(replicate 12000 (0::16 word), Num 2, 6::nat), (replicate 6000 0, Num 2, 7),
                      (replicate 24000 0, Num 2, 8)] \<and>
   Suc 1 < length [(replicate 12000 (0::16 word), Num 2, 6::nat), (replicate 6000 0, Num 2, 7),
                   (replicate 24000 0, Num 2, 8)] \<and>
   (0::real) \<le> 2 \<and> (2::real) \<le> 2 ^ 33 \<and> length (replicate 12000 (0::16 word)) < 2 ^ 31 \<and>
   nextStartTime live_app = Num 2 \<and> (2::real) \<le> 2 \<and> (2::real) \<le> 2 ^ 32 \<and>
   replicate 6000 (0::16 word) \<noteq> [] \<and> length (replicate 6000 (0::16 word)) < 2 ^ 31 \<and>
   replicate 24000 (0::16 word) \<noteq> [] \<and>
   nextStartTime (snd (onmessage_audio (Some (replicate 12000 0)) (Num 2) 6 live_app))
     = Num (5 / 2) \<and>
   scheduled_starts [(replicate 12000 0, Num 2, 6), (replicate 6000 0, Num 2, 7),
                     (replicate 24000 0, Num 2, 8)] live_app
     = [Num 2, Num (5 / 2), Num (11 / 4)] \<and>
   js_le (Num 2)
     (scheduled_starts [(replicate 12000 0, Num 2, 6), (replicate 6000 0, Num 2, 7),
                        (replicate 24000 0, Num 2, 8)] live_app ! 1) \<and>
   js_le (js_add (scheduled_starts [(replicate 12000 0, Num 2, 6), (replicate 6000 0, Num 2, 7),
                                    (replicate 24000 0, Num 2, 8)] live_app ! 1)
            (buffer_duration (replicate 6000 0)))
     (scheduled_starts [(replicate 12000 0, Num 2, 6), (replicate 6000 0, Num 2, 7),
                        (replicate 24000 0, Num 2, 8)] live_app ! Suc 1) \<and>
   (\<exists>d e. buffer_duration (replicate 12000 0) = Num d \<and> 0 < d \<and>
           js_add (Num 2) (Num d) = Num e \<and> 2 \<le> e \<and> \<bar>e - (2 + d)\<bar> \<le> (2 + d) / 2 ^ 53)"
proof -
  let ?ms = "[(replicate 12000 (0::16 word), Num 2, 6::nat), (replicate 6000 0, Num 2, 7),
              (replicate 24000 0, Num 2, 8)]"
  have ctx: "audioContext live_app \<noteq> None" by (simp add: live_app_def)
  have nst: "nextStartTime live_app = Num 2" by (simp add: live_app_def)
  have d1: "buffer_duration (replicate 12000 0) = Num (1 / 2)"
    unfolding buffer_duration_def
    by (rule js_div_eval [where e = "- 1" and m = 4503599627370496]) simp_all
  have d2: "buffer_duration (replicate 6000 0) = Num (1 / 4)"
    unfolding buffer_duration_def
    by (rule js_div_eval [where e = "- 2" and m = 4503599627370496]) simp_all
  have a1: "js_add (Num 2) (Num (1 / 2)) = Num (5 / 2)"
    by (rule js_add_eval [where e = 1 and m = 5629499534213120]) simp_all
  have a2: "js_add (Num (5 / 2)) (Num (1 / 4)) = Num (11 / 4)"
    by (rule js_add_eval [where e = 1 and m = 6192449487634432]) simp_all
  have hyp: "\<forall>m \<in> set ?ms. fst m \<noteq> [] \<and> (\<exists>t. fst (snd m) = Num t)" by simp
  note T = playback_schedule [OF ctx, where pcm = "replicate 12000 0" and now = "Num 2"
      and src = 6 and ms = ?ms and a = 2 and nst = 2 and ?t0.0 = 2
      and ?p1.0 = "replicate 12000 0" and ?p2.0 = "replicate 6000 0"
      and ?p3.0 = "replicate 24000 0" and ?n1.0 = 6 and ?n2.0 = 7 and ?n3.0 = 8]
  have one: "nextStartTime (snd (onmessage_audio (Some (replicate 12000 0)) (Num 2) 6 live_app))
      = Num (5 / 2)"
    using T by (simp add: nst d1 a1 del: js_add.simps)
  have three: "scheduled_starts ?ms live_app = [Num 2, Num (5 / 2), Num (11 / 4)]"
    using T by (simp add: nst d1 d2 a1 a2 del: js_add.simps)
  have le1: "js_le (Num 2) (scheduled_starts ?ms live_app ! 1)"
    using T hyp by (simp add: nst d1 d2 a1 a2 del: js_add.simps)
  have le2: "js_le (js_add (scheduled_starts ?ms live_app ! 1) (buffer_duration (replicate 6000 0)))
               (scheduled_starts ?ms live_app ! Suc 1)"
    using T hyp by (simp add: nst d1 d2 a1 a2 del: js_add.simps)
  have ex: "\<exists>d e. buffer_duration (replicate 12000 0) = Num d \<and> 0 < d \<and>
           js_add (Num 2) (Num d) = Num e \<and> 2 \<le> e \<and> \<bar>e - (2 + d)\<bar> \<le> (2 + d) / 2 ^ 53"
    using T by simp
  show ?thesis using ctx nst one three le1 le2 ex by simp
qed

section \<open>PCM conversion\<close>

lemma js_trunc_bounds: "\<bar>real_of_int (js_trunc v) - v\<bar> < 1"
  unfolding js_trunc_def by (auto; linarith)

lemma js_trunc_range:
  assumes "- 32768 \<le> v" "v < 32768"
  shows "- 32768 \<le> js_trunc v \<and> js_trunc v < 32768"
  using assms unfolding js_trunc_def by (auto; linarith)

text \<open>Below full scale the round trip of one sample is within one quantization step.\<close>

lemma sample_roundtrip:
  assumes "- 1 \<le> x" "x < 1"
  shows "\<bar>real_of_int (sint (toInt16 (x * 32768))) / 32768 - x\<bar> < 1 / 32768"
proof -
  define k where "k = js_trunc (x * 32768)"
  have r: "- 32768 \<le> k \<and> k < 32768"
    unfolding k_def using assms by (intro js_trunc_range) auto
  then have "sint (word_of_int k :: 16 word) = k"
    by (simp add: sint_sbintrunc' signed_take_bit_int_eq_self)
  then have s: "sint (toInt16 (x * 32768)) = k" by (simp add: toInt16_def k_def)
  have "\<bar>real_of_int k - x * 32768\<bar> < 1" unfolding k_def by (rule js_trunc_bounds)
  then show ?thesis unfolding s by (simp add: field_simps abs_if split: if_splits)
qed

lemma decode_encode_mono:
  assumes "xs \<noteq> []"
  shows "decodeAudioData (pcm_encode xs) rate 1
     = Inr \<lparr>channelData = [map (\<lambda>x. real_of_int (sint (toInt16 (x * 32768))) / 32768) xs],
            duration = js_div (Num (real (length xs))) (Num (real rate))\<rparr>"
  using assms
  by (auto simp add: decodeAudioData_def pcm_encode_def Let_def intro!: nth_equalityI)

text \<open>
  C6. The sample 1, the upper end of the range, is scaled to 32768, one more than a signed
  16-bit integer holds: it is stored as -32768 and decodes to -1, an error of 2 instead of
  at most 1/32768.
\<close>

theorem full_scale_sample_wraps:
  "pcm_encode [1] = [- 32768] \<and>
   decodeAudioData (pcm_encode [1]) 24000 1
     = Inr \<lparr>channelData = [[- 1]],
            duration = Num (6148914691236517 / 147573952589676412928)\<rparr> \<and>
   \<not> \<bar>(- 1) - (1::real)\<bar> \<le> 1 / 32768"
proof -
  have "js_div (Num 1) (Num 24000) = Num (6148914691236517 / 147573952589676412928)"
    by (rule js_div_eval [where e = "- 15" and m = 6148914691236517]) simp_all
  then show ?thesis
    by (simp add: pcm_encode_def toInt16_def js_trunc_def decodeAudioData_def)
qed

section \<open>Integers as amount text\<close>

text \<open>
  A positive integer below \<open>2 ^ 53\<close> is a double, prints as its decimal digits, and the
  digits parse back to it.
\<close>

lemma digit_cases:
  assumes "d < (10::nat)"
  shows "d = 0 \<or> d = 1 \<or> d = 2 \<or> d = 3 \<or> d = 4 \<or> d = 5 \<or> d = 6 \<or> d = 7 \<or> d = 8 \<or> d = 9"
  using assms by arith

lemma digit_char_props:
  assumes "d < 10"
  shows "is_digit (digit_char d)" and "digit_val (digit_char d) = d"
    and "\<not> is_ws (digit_char d)" and "digit_char d \<noteq> CHR ''-''"
    and "digit_char d \<noteq> CHR ''+''" and "digit_char d \<noteq> CHR ''I''"
  using digit_cases [OF assms]
  by (auto simp add: is_digit_def digit_char_def digit_val_def is_ws_def)

lemma digits_val_snoc: "digits_val (ds @ [c]) = 10 * digits_val ds + digit_val c"
  by (simp add: digits_val_def)

lemma nat_to_digits_digits: "\<forall>c \<in> set (nat_to_digits n). is_digit c"
proof (induction n rule: nat_to_digits.induct)
  case (1 n)
  show ?case
  proof (cases "n < 10")
    case True
    then show ?thesis by (subst nat_to_digits.simps) (simp add: digit_char_props)
  next
    case False
    have "n mod 10 < 10" by simp
    with False "1.IH" show ?thesis
      by (subst nat_to_digits.simps) (simp add: digit_char_props)
  qed
qed

lemma digits_val_nat_to_digits: "digits_val (nat_to_digits n) = n"
proof (induction n rule: nat_to_digits.induct)
  case (1 n)
  show ?case
  proof (cases "n < 10")
    case True
    then show ?thesis
      by (subst nat_to_digits.simps) (simp add: digits_val_def digit_char_props)
  next
    case False
    have "n mod 10 < 10" by simp
    with False "1.IH" show ?thesis
      by (subst nat_to_digits.simps) (simp add: digits_val_snoc digit_char_props)
  qed
qed

lemma nat_to_digits_hd:
  "\<exists>d ds. nat_to_digits n = digit_char d # ds \<and> d < 10"
proof (induction n rule: nat_to_digits.induct)
  case (1 n)
  show ?case
  proof (cases "n < 10")
    case True
    then show ?thesis by (subst nat_to_digits.simps) auto
  next
    case False
    with "1.IH" obtain d ds where "nat_to_digits (n div 10) = digit_char d # ds" "d < 10"
      by blast
    with False show ?thesis by (subst nat_to_digits.simps) auto
  qed
qed

lemma parseFloat_digits:
  "parseFloat (nat_to_digits n) = round_double (real n)"
proof -
  obtain d ds where t: "nat_to_digits n = digit_char d # ds" and d: "d < 10"
    using nat_to_digits_hd by blast
  have tw: "takeWhile is_digit (nat_to_digits n) = nat_to_digits n"
    and dw: "dropWhile is_digit (nat_to_digits n) = []"
    using nat_to_digits_digits [of n]
    by (simp_all only: takeWhile_eq_all_conv dropWhile_eq_Nil_conv)
  have ws: "dropWhile is_ws (nat_to_digits n) = nat_to_digits n"
    unfolding t using digit_char_props(3) [OF d] by simp
  have sg: "split_sign (nat_to_digits n) = (False, nat_to_digits n)"
    unfolding t using digit_char_props(4,5) [OF d] by (simp add: split_sign_def)
  have inf: "take 8 (nat_to_digits n) \<noteq> ''Infinity''"
    unfolding t using digit_char_props(6) [OF d] by (simp add: take_Cons')
  have ne: "nat_to_digits n \<noteq> []" by (simp add: t)
  show ?thesis
    by (simp add: parseFloat_def ws sg inf tw dw ne digits_val_nat_to_digits exponent_part_def)
qed

lemma round_double_nat:
  assumes "0 < k" "k < 2 ^ 53"
  shows "round_double (real k) = Num (real k)"
proof -
  define a where "a = real k"
  have a1: "1 \<le> a" using assms(1) by (simp add: a_def)
  have a53: "a < 2 ^ 53"
    unfolding a_def using assms(2) by (metis of_nat_less_iff of_nat_numeral of_nat_power)
  have a0: "0 < a" using a1 by simp
  define e where "e = expo a"
  from expo_bounds [OF a0] have b1: "2 powi e \<le> a" and b2: "a < 2 powi (e + 1)"
    unfolding e_def by simp_all
  have e0: "0 \<le> e"
  proof (rule ccontr)
    assume "\<not> 0 \<le> e"
    then have "e + 1 \<le> 0" by simp
    then have "(2::real) powi (e + 1) \<le> 2 powi 0" by (intro power_int_increasing) auto
    with b2 a1 show False by simp
  qed
  have e52: "e \<le> 52"
  proof (rule ccontr)
    assume "\<not> e \<le> 52"
    then have "53 \<le> e" by simp
    then have "(2::real) powi 53 \<le> 2 powi e" by (intro power_int_increasing) auto
    with b1 a53 show False by simp
  qed
  define N :: int where "N = 2 ^ nat (52 - e)"
  have Nq: "real_of_int N * 2 powi (e - 52) = 1"
  proof -
    have "real_of_int N = 2 powi (52 - e)" using e52 by (simp add: N_def power_int_nonneg_exp)
    then have "real_of_int N * 2 powi (e - 52) = 2 powi (52 - e) * 2 powi (e - 52)" by simp
    also have "\<dots> = 2 powi ((52 - e) + (e - 52))" by (rule power_int_add [symmetric]) simp
    finally show ?thesis by simp
  qed
  have q0: "(0::real) < 2 powi (e - 52)" by simp
  have "a / 2 powi (e - 52) = a * real_of_int N"
  proof -
    have "a * (real_of_int N * 2 powi (e - 52)) = a" by (simp only: Nq mult_1_right)
    then show ?thesis using q0 by (simp add: field_simps)
  qed
  also have "\<dots> = real_of_int (int k * N)" by (simp add: a_def)
  finally have m: "rhe (a / 2 powi (max e (- 1022) - 52)) = int k * N"
    using e0 by (intro rhe_eqI) simp
  have y: "real_of_int (int k * N) * 2 powi (max e (- 1022) - 52) = a"
  proof -
    have "real_of_int (int k * N) * 2 powi (e - 52) = a * (real_of_int N * 2 powi (e - 52))"
      by (simp add: a_def)
    also have "\<dots> = a" by (simp only: Nq mult_1_right)
    finally show ?thesis using e0 by simp
  qed
  have "(2::real) ^ 53 < 2 ^ 1024" by simp
  with a53 have fin: "real_of_int (int k * N) * 2 powi (max e (- 1022) - 52) < 2 ^ 1024"
    unfolding y by linarith
  from round_double_pos [OF a0 b1 b2 m fin] show ?thesis
    unfolding y by (simp add: a_def)
qed

lemma toString_nat:
  assumes "0 < k" "k < 2 ^ 53"
  shows "number_toString repr (Num (real k)) = nat_to_digits k"
proof -
  have "real k < 2 ^ 53" using assms(2) by (metis of_nat_less_iff of_nat_numeral of_nat_power)
  then show ?thesis using assms(1) by (simp add: number_toString_def pos_toString_def)
qed

lemma integer_text_roundtrip:
  assumes "0 < k" "k < 2 ^ 53"
  shows "parseFloat (number_toString repr (Num (real k))) = Num (real k)"
  by (simp only: toString_nat [OF assms] parseFloat_digits round_double_nat [OF assms])

section \<open>Digit strings\<close>

lemma digits_val_append:
  "digits_val (a @ b) = digits_val a * 10 ^ length b + digits_val b"
  by (induction b rule: rev_induct) (simp_all add: digits_val_def algebra_simps)

lemma digits_val_zeros: "digits_val (replicate z CHR ''0'') = 0"
  by (induction z) (simp_all add: digits_val_def digit_val_def)

lemma digit_first:
  assumes "is_digit c"
  shows "\<not> is_ws c" and "c \<noteq> CHR ''-''" and "c \<noteq> CHR ''+''" and "c \<noteq> CHR ''I''"
    and "c \<noteq> CHR ''.''"
  using assms by (auto simp add: is_digit_def is_ws_def)

lemma digits_takeWhile:
  assumes "\<forall>c \<in> set ds. is_digit c" and "r = [] \<or> \<not> is_digit (hd r)"
  shows "takeWhile is_digit (ds @ r) = ds" and "dropWhile is_digit (ds @ r) = r"
proof -
  have t: "takeWhile is_digit r = []" and d: "dropWhile is_digit r = r"
    using assms(2) by (cases r; simp)+
  show "takeWhile is_digit (ds @ r) = ds" using assms(1) by (simp add: takeWhile_append2 t)
  show "dropWhile is_digit (ds @ r) = r" using assms(1) by (simp add: dropWhile_append2 d)
qed

text \<open>A text that begins with a digit has no white space, sign or \<open>Infinity\<close> to skip.\<close>

lemma parse_prefix:
  assumes "is_digit c"
  shows "dropWhile is_ws (c # t) = c # t" and "split_sign (c # t) = (False, c # t)"
    and "take 8 (c # t) \<noteq> ''Infinity''"
  using digit_first [OF assms] by (simp_all add: split_sign_def take_Cons')

lemma parse_core:
  assumes "dropWhile is_ws u = u" and "split_sign u = (False, u)"
    and "take 8 u \<noteq> ''Infinity''"
    and "takeWhile is_digit u = ip" and "dropWhile is_digit u = r1" and "ip \<noteq> []"
    and "(case r1 of [] \<Rightarrow> ([], r1)
          | c # r \<Rightarrow> if c = CHR ''.'' then (takeWhile is_digit r, dropWhile is_digit r)
                      else ([], r1)) = (fp, r2)"
  shows "parseFloat u
     = round_double (real (digits_val (ip @ fp)) * 10 powi (exponent_part r2 - int (length fp)))"
  by (simp add: parseFloat_def assms)

lemma parse_integer:
  assumes "ip \<noteq> []" and "\<forall>c \<in> set ip. is_digit c"
    and "r = [] \<or> (\<not> is_digit (hd r) \<and> hd r \<noteq> CHR ''.'')"
  shows "parseFloat (ip @ r) = round_double (real (digits_val ip) * 10 powi exponent_part r)"
proof -
  from assms(1,2) obtain c t where ip: "ip = c # t" and c: "is_digit c"
    by (cases ip) auto
  have pre: "dropWhile is_ws (ip @ r) = ip @ r" "split_sign (ip @ r) = (False, ip @ r)"
    "take 8 (ip @ r) \<noteq> ''Infinity''"
    unfolding ip append_Cons using parse_prefix [OF c] by blast+
  have r': "r = [] \<or> \<not> is_digit (hd r)" using assms(3) by blast
  note tw = digits_takeWhile [OF assms(2) r']
  have cs: "(case r of [] \<Rightarrow> ([], r)
             | c # r' \<Rightarrow> if c = CHR ''.'' then (takeWhile is_digit r', dropWhile is_digit r')
                         else ([], r)) = ([], r)"
    using assms(3) by (cases r) simp_all
  from parse_core [OF pre tw assms(1) cs] show ?thesis by simp
qed

lemma parse_fraction:
  assumes "ip \<noteq> []" and "\<forall>c \<in> set ip. is_digit c" and "\<forall>c \<in> set fp. is_digit c"
    and "r = [] \<or> \<not> is_digit (hd r)"
  shows "parseFloat (ip @ ''.'' @ fp @ r)
     = round_double (real (digits_val (ip @ fp))
                      * 10 powi (exponent_part r - int (length fp)))"
proof -
  from assms(1,2) obtain c t where ip: "ip = c # t" and c: "is_digit c"
    by (cases ip) auto
  have pre: "dropWhile is_ws (ip @ ''.'' @ fp @ r) = ip @ ''.'' @ fp @ r"
    "split_sign (ip @ ''.'' @ fp @ r) = (False, ip @ ''.'' @ fp @ r)"
    "take 8 (ip @ ''.'' @ fp @ r) \<noteq> ''Infinity''"
    unfolding ip append_Cons using parse_prefix [OF c] by blast+
  have dot: "''.'' @ fp @ r = [] \<or> \<not> is_digit (hd (''.'' @ fp @ r))"
    by (simp add: is_digit_def)
  note tw1 = digits_takeWhile [OF assms(2) dot]
  note tw2 = digits_takeWhile [OF assms(3,4)]
  have cs: "(case ''.'' @ fp @ r of [] \<Rightarrow> ([], ''.'' @ fp @ r)
             | c # r' \<Rightarrow> if c = CHR ''.'' then (takeWhile is_digit r', dropWhile is_digit r')
                         else ([], ''.'' @ fp @ r)) = (fp, r)"
    using tw2 by simp
  from parse_core [OF pre tw1 assms(1) cs] show ?thesis .
qed

lemma exponent_part_Nil: "exponent_part [] = 0"
  by (simp add: exponent_part_def)

lemma exponent_part_digits: "exponent_part (''e'' @ exp_digits e) = e"
proof -
  have tw: "takeWhile is_digit (nat_to_digits m) = nat_to_digits m" for m
    using nat_to_digits_digits [of m] by (simp only: takeWhile_eq_all_conv)
  have ne: "nat_to_digits m \<noteq> []" for m
    using nat_to_digits_hd [of m] by auto
  show ?thesis
    by (simp add: exponent_part_def exp_digits_def split_sign_def tw ne
          digits_val_nat_to_digits)
qed

section \<open>Reading a rendered number back\<close>

lemma format_digits_cases:
  "int (length ds) \<le> n \<and> n \<le> 21 \<Longrightarrow>
     format_digits ds n = ds @ replicate (nat (n - int (length ds))) CHR ''0''"
  "\<not> (int (length ds) \<le> n \<and> n \<le> 21) \<Longrightarrow> 0 < n \<and> n \<le> 21 \<Longrightarrow>
     format_digits ds n = take (nat n) ds @ ''.'' @ drop (nat n) ds"
  "\<not> (int (length ds) \<le> n \<and> n \<le> 21) \<Longrightarrow> \<not> (0 < n \<and> n \<le> 21) \<Longrightarrow> - 6 < n \<and> n \<le> 0 \<Longrightarrow>
     format_digits ds n = ''0.'' @ replicate (nat (- n)) CHR ''0'' @ ds"
  "\<not> (int (length ds) \<le> n \<and> n \<le> 21) \<Longrightarrow> \<not> (0 < n \<and> n \<le> 21) \<Longrightarrow> \<not> (- 6 < n \<and> n \<le> 0) \<Longrightarrow>
     int (length ds) = 1 \<Longrightarrow> format_digits ds n = ds @ ''e'' @ exp_digits (n - 1)"
  "\<not> (int (length ds) \<le> n \<and> n \<le> 21) \<Longrightarrow> \<not> (0 < n \<and> n \<le> 21) \<Longrightarrow> \<not> (- 6 < n \<and> n \<le> 0) \<Longrightarrow>
     int (length ds) \<noteq> 1 \<Longrightarrow>
     format_digits ds n = take 1 ds @ ''.'' @ drop 1 ds @ ''e'' @ exp_digits (n - 1)"
  by (simp_all only: format_digits_def Let_def if_True if_False simp_thms)

lemma parse_format:
  assumes ne: "ds \<noteq> []" and dg: "\<forall>c \<in> set ds. is_digit c"
  shows "parseFloat (format_digits ds n)
     = round_double (real (digits_val ds) * 10 powi (n - int (length ds)))"
proof -
  define k where "k = int (length ds)"
  have k1: "1 \<le> k" using ne by (cases ds) (simp_all add: k_def)
  have z0: "is_digit CHR ''0''" by (simp add: is_digit_def)
  have e0: "[] = [] \<or> (\<not> is_digit (hd []) \<and> hd [] \<noteq> CHR ''.'')" by simp
  have e1: "[] = [] \<or> \<not> is_digit (hd [])" by simp
  have ee: "''e'' @ exp_digits (n - 1) = [] \<or>
      (\<not> is_digit (hd (''e'' @ exp_digits (n - 1))) \<and> hd (''e'' @ exp_digits (n - 1)) \<noteq> CHR ''.'')"
    by (simp add: is_digit_def)
  have ee1: "''e'' @ exp_digits (n - 1) = [] \<or> \<not> is_digit (hd (''e'' @ exp_digits (n - 1)))"
    by (simp add: is_digit_def)
  consider (a) "k \<le> n \<and> n \<le> 21"
    | (b) "\<not> (k \<le> n \<and> n \<le> 21)" "0 < n \<and> n \<le> 21"
    | (c) "\<not> (k \<le> n \<and> n \<le> 21)" "\<not> (0 < n \<and> n \<le> 21)" "- 6 < n \<and> n \<le> 0"
    | (d) "\<not> (k \<le> n \<and> n \<le> 21)" "\<not> (0 < n \<and> n \<le> 21)" "\<not> (- 6 < n \<and> n \<le> 0)" "k = 1"
    | (e) "\<not> (k \<le> n \<and> n \<le> 21)" "\<not> (0 < n \<and> n \<le> 21)" "\<not> (- 6 < n \<and> n \<le> 0)" "k \<noteq> 1"
    by blast
  then show ?thesis
  proof cases
    case a
    define z where "z = nat (n - k)"
    have f: "format_digits ds n = (ds @ replicate z CHR ''0'') @ []"
      unfolding z_def k_def append_Nil2
      by (rule format_digits_cases(1) [OF a [unfolded k_def]])
    have dz: "\<forall>c \<in> set (ds @ replicate z CHR ''0''). is_digit c"
      using dg z0 by auto
    have nz: "ds @ replicate z CHR ''0'' \<noteq> []" using ne by simp
    have v: "real (digits_val (ds @ replicate z CHR ''0'')) = real (digits_val ds) * 10 ^ z"
      by (simp add: digits_val_append digits_val_zeros)
    have "0 \<le> n - k" using a by simp
    then have p: "(10::real) powi (n - k) = 10 ^ z"
      unfolding z_def by (rule power_int_nonneg_exp)
    have "parseFloat (format_digits ds n)
        = round_double (real (digits_val (ds @ replicate z CHR ''0'')) * 10 powi exponent_part [])"
      unfolding f by (rule parse_integer [OF nz dz e0])
    also have "\<dots> = round_double (real (digits_val ds) * 10 powi (n - k))"
      unfolding v exponent_part_Nil p by simp
    finally show ?thesis unfolding k_def .
  next
    case b
    then have nk: "n < k" by linarith
    define i where "i = nat n"
    have i: "0 < i" "i < length ds" using b nk unfolding i_def k_def by linarith+
    have f: "format_digits ds n = take i ds @ ''.'' @ drop i ds @ []"
      unfolding i_def append_Nil2
      by (rule format_digits_cases(2) [OF b [unfolded k_def]])
    have n1: "take i ds \<noteq> []" using i ne by simp
    have d1: "\<forall>c \<in> set (take i ds). is_digit c" using dg by (auto dest: in_set_takeD)
    have d2: "\<forall>c \<in> set (drop i ds). is_digit c" using dg by (auto dest: in_set_dropD)
    have "int i = n" using b by (simp add: i_def)
    then have l: "exponent_part [] - int (length (drop i ds)) = n - k"
      using i by (simp add: k_def exponent_part_Nil)
    have "parseFloat (format_digits ds n)
        = round_double (real (digits_val (take i ds @ drop i ds))
                         * 10 powi (exponent_part [] - int (length (drop i ds))))"
      unfolding f by (rule parse_fraction [OF n1 d1 d2 e1])
    also have "\<dots> = round_double (real (digits_val ds) * 10 powi (n - k))"
      unfolding l append_take_drop_id ..
    finally show ?thesis unfolding k_def .
  next
    case c
    define z where "z = nat (- n)"
    have f: "format_digits ds n = ''0'' @ ''.'' @ (replicate z CHR ''0'' @ ds) @ []"
    proof -
      have "format_digits ds n = ''0.'' @ replicate (nat (- n)) CHR ''0'' @ ds"
        by (rule format_digits_cases(3) [OF c [unfolded k_def]])
      then show ?thesis by (simp add: z_def)
    qed
    have n1: "''0'' \<noteq> []" by simp
    have d1: "\<forall>c \<in> set ''0''. is_digit c" by (simp add: is_digit_def)
    have d2: "\<forall>c \<in> set (replicate z CHR ''0'' @ ds). is_digit c"
      using dg z0 by auto
    have v: "digits_val (''0'' @ replicate z CHR ''0'' @ ds) = digits_val ds"
    proof -
      have "''0'' @ replicate z CHR ''0'' @ ds = replicate (Suc z) CHR ''0'' @ ds" by simp
      then show ?thesis by (simp only: digits_val_append digits_val_zeros)
    qed
    have "int z = - n" using c by (simp add: z_def)
    then have l: "exponent_part [] - int (length (replicate z CHR ''0'' @ ds)) = n - k"
      by (simp add: k_def exponent_part_Nil)
    have "parseFloat (format_digits ds n)
        = round_double (real (digits_val (''0'' @ replicate z CHR ''0'' @ ds))
                         * 10 powi (exponent_part [] - int (length (replicate z CHR ''0'' @ ds))))"
      unfolding f by (rule parse_fraction [OF n1 d1 d2 e1])
    also have "\<dots> = round_double (real (digits_val ds) * 10 powi (n - k))"
      unfolding l v ..
    finally show ?thesis unfolding k_def .
  next
    case d
    have f: "format_digits ds n = ds @ ''e'' @ exp_digits (n - 1)"
      by (rule format_digits_cases(4) [OF d [unfolded k_def]])
    have l: "n - 1 = n - k" using d by simp
    have "parseFloat (format_digits ds n)
        = round_double (real (digits_val ds) * 10 powi exponent_part (''e'' @ exp_digits (n - 1)))"
      unfolding f by (rule parse_integer [OF ne dg ee])
    also have "\<dots> = round_double (real (digits_val ds) * 10 powi (n - k))"
      unfolding exponent_part_digits l ..
    finally show ?thesis unfolding k_def .
  next
    case e
    then have k2: "1 < k" using k1 by simp
    have f: "format_digits ds n = take 1 ds @ ''.'' @ drop 1 ds @ ''e'' @ exp_digits (n - 1)"
      by (rule format_digits_cases(5) [OF e [unfolded k_def]])
    have n1: "take 1 ds \<noteq> []" using ne by simp
    have d1: "\<forall>c \<in> set (take 1 ds). is_digit c" using dg by (auto dest: in_set_takeD)
    have d2: "\<forall>c \<in> set (drop 1 ds). is_digit c" using dg by (auto dest: in_set_dropD)
    have l: "exponent_part (''e'' @ exp_digits (n - 1)) - int (length (drop 1 ds)) = n - k"
      unfolding exponent_part_digits using k2 by (simp add: k_def)
    have "parseFloat (format_digits ds n)
        = round_double (real (digits_val (take 1 ds @ drop 1 ds))
            * 10 powi (exponent_part (''e'' @ exp_digits (n - 1)) - int (length (drop 1 ds))))"
      unfolding f by (rule parse_fraction [OF n1 d1 d2 ee1])
    also have "\<dots> = round_double (real (digits_val ds) * 10 powi (n - k))"
      unfolding l append_take_drop_id ..
    finally show ?thesis unfolding k_def .
  qed
qed

text \<open>The rendering begins with a digit.\<close>

lemma format_digits_hd:
  assumes ne: "ds \<noteq> []" and dg: "\<forall>c \<in> set ds. is_digit c"
  shows "\<exists>c t. format_digits ds n = c # t \<and> is_digit c"
proof -
  from ne dg obtain c t where ds: "ds = c # t" and c: "is_digit c" by (cases ds) auto
  have z: "is_digit CHR ''0''" by (simp add: is_digit_def)
  have "0 < n \<Longrightarrow> take (nat n) (c # t) = c # take (nat n - 1) t"
    by (simp add: take_Cons')
  then show ?thesis
    unfolding ds using c z by (auto simp add: format_digits_def Let_def)
qed

lemma strip_zeros_decomp:
  "\<exists>z. ds = strip_zeros ds @ replicate z CHR ''0''"
proof -
  define P where "P = (\<lambda>c. c = CHR ''0'')"
  have "\<forall>c \<in> set (takeWhile P (rev ds)). c = CHR ''0''"
    by (auto dest: set_takeWhileD simp add: P_def)
  then have t: "replicate (length (takeWhile P (rev ds))) CHR ''0'' = takeWhile P (rev ds)"
    by (intro replicate_length_same) simp
  have "rev (takeWhile P (rev ds) @ dropWhile P (rev ds)) = rev (rev ds)"
    by (simp only: takeWhile_dropWhile_id)
  then have "ds = rev (dropWhile P (rev ds)) @ rev (takeWhile P (rev ds))"
    by (simp only: rev_append rev_rev_ident)
  also have "rev (takeWhile P (rev ds)) = replicate (length (takeWhile P (rev ds))) CHR ''0''"
    by (subst t [symmetric]) simp
  finally show ?thesis unfolding strip_zeros_def P_def by blast
qed

lemma strip_zeros_digits:
  assumes "\<forall>c \<in> set ds. is_digit c"
  shows "\<forall>c \<in> set (strip_zeros ds). is_digit c"
  using assms by (auto simp add: strip_zeros_def dest: set_dropWhileD)

text \<open>A rounding has the sign of what is rounded.\<close>

lemma round_double_sign:
  assumes "round_double v = Num x" and "0 < x"
  shows "0 < v"
proof (rule ccontr)
  assume "\<not> 0 < v"
  then consider "v = 0" | "v < 0" by linarith
  then show False
  proof cases
    case 1
    with assms show False by (simp add: round_double_def)
  next
    case 2
    define y where "y = real_of_int (rhe (\<bar>v\<bar> / 2 powi (max (expo \<bar>v\<bar>) (- 1022) - 52)))
        * 2 powi (max (expo \<bar>v\<bar>) (- 1022) - 52)"
    have "0 \<le> \<bar>v\<bar> / 2 powi (max (expo \<bar>v\<bar>) (- 1022) - 52)" by simp
    then have "0 \<le> rhe (\<bar>v\<bar> / 2 powi (max (expo \<bar>v\<bar>) (- 1022) - 52))" by (rule rhe_nonneg)
    then have y0: "0 \<le> y" unfolding y_def by simp
    from assms(1) 2 have "\<not> 2 ^ 1024 \<le> y \<and> x = - y"
      by (simp add: round_double_def Let_def y_def split: if_splits)
    with y0 assms(2) show False by simp
  qed
qed

text \<open>Every double is a multiple of \<open>2 powi (- 1074)\<close>.\<close>

lemma double_grid:
  assumes "round_double x = Num x" and "0 < x"
  shows "\<exists>m::int. x = of_int m * 2 powi (- 1074)"
proof -
  define e where "e = max (expo \<bar>x\<bar>) (- 1022)"
  define M where "M = rhe (\<bar>x\<bar> / 2 powi (e - 52))"
  from assms have "x = of_int M * 2 powi (e - 52)"
    by (simp add: round_double_def Let_def e_def M_def split: if_splits)
  moreover have "(2::real) powi (e - 52) = 2 ^ nat (e + 1022) * 2 powi (- 1074)"
  proof -
    have "0 \<le> e + 1022" by (simp add: e_def)
    then have "(2::real) ^ nat (e + 1022) = 2 powi (e + 1022)"
      by (simp add: power_int_def)
    moreover have "(2::real) powi ((e + 1022) + (- 1074)) = 2 powi (e + 1022) * 2 powi (- 1074)"
      by (rule power_int_add) simp
    moreover have "(e + 1022) + (- 1074) = e - 52" by simp
    ultimately show ?thesis by (simp only:)
  qed
  ultimately have "x = of_int (M * 2 ^ nat (e + 1022)) * 2 powi (- 1074)" by simp
  then show ?thesis by blast
qed

lemma exact_expansion:
  fixes x :: real
  assumes "x = of_int m * 2 powi (- 1074)" and "q \<le> - 1074"
  shows "of_int \<lfloor>x / 10 powi q\<rfloor> * 10 powi q = x"
proof -
  define N where "N = nat (- q)"
  have N: "1074 \<le> N" using assms(2) by (simp add: N_def)
  have q: "q = - int N" using assms(2) by (simp add: N_def)
  have p10: "(10::real) powi q = 1 / 10 ^ N"
    unfolding q by (simp add: power_int_minus field_simps)
  define c :: real where "c = 2 ^ 1074"
  have c0: "c \<noteq> 0" by (simp add: c_def)
  have p2: "(2::real) powi (- 1074) = 1 / c"
    by (simp add: c_def power_int_minus field_simps)
  have "(10::real) ^ N = 2 ^ N * 5 ^ N" by (simp flip: power_mult_distrib)
  also have "(2::real) ^ N = 2 ^ ((N - 1074) + 1074)" using N by simp
  also have "\<dots> = 2 ^ (N - 1074) * c" unfolding c_def by (rule power_add)
  finally have t: "(10::real) ^ N = 2 ^ (N - 1074) * c * 5 ^ N" .
  have "x / 10 powi q = of_int m * (1 / c) * 10 ^ N"
    unfolding assms(1) p10 p2 by simp
  also have "\<dots> = of_int m * (2 ^ (N - 1074) * 5 ^ N) * ((1 / c) * c)"
    unfolding t by (simp only: mult_ac)
  also have "\<dots> = of_int (m * (2 ^ (N - 1074) * 5 ^ N))" using c0 by simp
  finally have i: "x / 10 powi q = of_int (m * (2 ^ (N - 1074) * 5 ^ N))" .
  have "of_int \<lfloor>x / 10 powi q\<rfloor> = x / 10 powi q"
    unfolding i by (simp only: floor_of_int)
  then have "of_int \<lfloor>x / 10 powi q\<rfloor> * 10 powi q = x / 10 powi q * 10 powi q"
    by (simp only:)
  also have "\<dots> = x" by simp
  finally show ?thesis .
qed

lemma pick_valid: "pick x q = Some s \<Longrightarrow> reads_as x s q"
  by (simp add: pick_def Let_def split: if_splits)

lemma shortest_valid:
  "round_double x = Num x \<Longrightarrow> 0 < x \<Longrightarrow> shortest x n0 k = (s, q) \<Longrightarrow>
     round_double (of_int s * 10 powi q) = Num x"
proof (induction x n0 k rule: shortest.induct)
  case (1 x n0 k)
  note dbl = "1.prems"(1) and pos = "1.prems"(2) and res = "1.prems"(3)
  show ?case
  proof (cases "pick x (n0 - int k)")
    case (Some s')
    with res have "s = s'" "q = n0 - int k"
      by (auto simp add: shortest.simps [of x n0 k])
    with pick_valid [OF Some] show ?thesis by (simp add: reads_as_def)
  next
    case None
    show ?thesis
    proof (cases "n0 + 1074 \<le> int k")
      case True
      with None res have s: "s = \<lfloor>x / 10 powi (n0 - int k)\<rfloor>" and q: "q = n0 - int k"
        by (auto simp add: shortest.simps [of x n0 k])
      from double_grid [OF dbl pos] obtain m :: int where m: "x = of_int m * 2 powi (- 1074)"
        by blast
      from True have "n0 - int k \<le> - 1074" by simp
      from exact_expansion [OF m this] show ?thesis unfolding s q using dbl by simp
    next
      case False
      with None res have "shortest x n0 (Suc k) = (s, q)"
        by (simp add: shortest.simps [of x n0 k])
      with "1.IH" [OF None False dbl pos] show ?thesis by simp
    qed
  qed
qed

text \<open>The digits of \<open>Number::toString\<close> read back as the double they were made from.\<close>

lemma js_repr_roundtrip:
  assumes "round_double x = Num x" and "0 < x"
  shows "parseFloat (js_repr x) = Num x"
    and "\<exists>c t. js_repr x = c # t \<and> is_digit c"
proof -
  obtain s q where sq: "shortest x (dec_exp x) 1 = (s, q)" by (cases "shortest x (dec_exp x) 1")
  define ds0 where "ds0 = nat_to_digits (nat s)"
  define ds where "ds = strip_zeros ds0"
  have r: "js_repr x = format_digits ds (q + int (length ds0))"
    unfolding js_repr_def sq ds0_def ds_def Let_def by simp
  from shortest_valid [OF assms sq] have v: "round_double (of_int s * 10 powi q) = Num x" .
  from round_double_sign [OF v assms(2)] have "0 < of_int s * (10::real) powi q" .
  moreover have "\<not> (10::real) powi q < 0" by (simp add: not_less)
  ultimately have s0: "0 < s" by (auto simp add: zero_less_mult_iff)
  have dg0: "\<forall>c \<in> set ds0. is_digit c" unfolding ds0_def by (rule nat_to_digits_digits)
  have dg: "\<forall>c \<in> set ds. is_digit c" unfolding ds_def using dg0 by (rule strip_zeros_digits)
  obtain z where z: "ds0 = ds @ replicate z CHR ''0''"
    using strip_zeros_decomp [of ds0] unfolding ds_def by blast
  have "digits_val ds0 = nat s" unfolding ds0_def by (rule digits_val_nat_to_digits)
  then have val: "digits_val ds * 10 ^ z = nat s"
    unfolding z by (simp add: digits_val_append digits_val_zeros)
  have ne: "ds \<noteq> []"
  proof
    assume "ds = []"
    then have "digits_val ds = 0" by (simp add: digits_val_def)
    with val s0 show False by simp
  qed
  have len: "q + int (length ds0) - int (length ds) = q + int z" unfolding z by simp
  have "real (digits_val ds) * 10 powi (q + int z)
      = real (digits_val ds) * (10 powi int z * 10 powi q)"
    by (simp add: power_int_add)
  also have "\<dots> = real (digits_val ds * 10 ^ z) * 10 powi q" by simp
  also have "\<dots> = of_int s * 10 powi q" unfolding val using s0 by simp
  finally have e: "real (digits_val ds) * 10 powi (q + int z) = of_int s * 10 powi q" .
  show "parseFloat (js_repr x) = Num x"
    unfolding r parse_format [OF ne dg] len e by (rule v)
  show "\<exists>c t. js_repr x = c # t \<and> is_digit c"
    unfolding r by (rule format_digits_hd [OF ne dg])
qed

lemma round_double_minus:
  assumes "round_double v = Num x"
  shows "round_double (- v) = Num (- x)"
proof (cases "v = 0")
  case True
  with assms show ?thesis by (simp add: round_double_def)
next
  case False
  define y where "y = real_of_int (rhe (\<bar>v\<bar> / 2 powi (max (expo \<bar>v\<bar>) (- 1022) - 52)))
      * 2 powi (max (expo \<bar>v\<bar>) (- 1022) - 52)"
  from assms False have a: "\<not> 2 ^ 1024 \<le> y" and b: "x = sgn v * y"
    by (simp_all add: round_double_def Let_def y_def split: if_splits)
  from False a have "round_double (- v) = Num (sgn (- v) * y)"
    by (simp add: round_double_def Let_def y_def)
  then show ?thesis unfolding b by (simp add: sgn_minus)
qed

text \<open>A minus sign before a text that begins with a digit negates what is read.\<close>

lemma parse_minus:
  assumes "is_digit c"
  shows "\<exists>V. parseFloat (c # t) = round_double V \<and>
             parseFloat (CHR ''-'' # c # t) = round_double (- V)"
proof -
  obtain fp r2 where cs:
    "(case dropWhile is_digit t of [] \<Rightarrow> ([], dropWhile is_digit t)
      | d # r \<Rightarrow> if d = CHR ''.'' then (takeWhile is_digit r, dropWhile is_digit r)
                  else ([], dropWhile is_digit t)) = (fp, r2)"
    by (cases "case dropWhile is_digit t of [] \<Rightarrow> ([], dropWhile is_digit t)
      | d # r \<Rightarrow> if d = CHR ''.'' then (takeWhile is_digit r, dropWhile is_digit r)
                  else ([], dropWhile is_digit t)")
  have tw: "takeWhile is_digit (c # t) = c # takeWhile is_digit t"
    and dw: "dropWhile is_digit (c # t) = dropWhile is_digit t"
    using assms by simp_all
  have cs': "(case dropWhile is_digit (c # t) of [] \<Rightarrow> ([], dropWhile is_digit (c # t))
      | d # r \<Rightarrow> if d = CHR ''.'' then (takeWhile is_digit r, dropWhile is_digit r)
                  else ([], dropWhile is_digit (c # t))) = (fp, r2)"
    unfolding dw by (rule cs)
  define V where "V = real (digits_val ((c # takeWhile is_digit t) @ fp))
      * 10 powi (exponent_part r2 - int (length fp))"
  have ne: "c # takeWhile is_digit t \<noteq> []" by simp
  from parse_core [OF parse_prefix [OF assms] tw dw ne cs]
  have p: "parseFloat (c # t) = round_double V" unfolding V_def .
  have ws: "dropWhile is_ws (CHR ''-'' # c # t) = CHR ''-'' # c # t" by (simp add: is_ws_def)
  have sg: "split_sign (CHR ''-'' # c # t) = (True, c # t)" by (simp add: split_sign_def)
  have "parseFloat (CHR ''-'' # c # t) = round_double (- 1 * real (digits_val ((c # takeWhile is_digit t) @ fp))
      * 10 powi (exponent_part r2 - int (length fp)))"
    unfolding parseFloat_def ws sg Let_def prod.case tw cs'
    by (simp only: parse_prefix(3) [OF assms] if_False if_True list.distinct simp_thms)
  then have "parseFloat (CHR ''-'' # c # t) = round_double (- V)"
    unfolding V_def by simp
  with p show ?thesis by blast
qed

lemma pos_toString_roundtrip:
  assumes "round_double x = Num x" and "0 < x"
  shows "parseFloat (pos_toString js_repr x) = Num x"
    and "\<exists>c t. pos_toString js_repr x = c # t \<and> is_digit c"
proof -
  show "parseFloat (pos_toString js_repr x) = Num x"
  proof (cases "of_int \<lfloor>x\<rfloor> = x \<and> x < 2 ^ 53")
    case True
    then have "real (nat \<lfloor>x\<rfloor>) = x" using assms(2) by simp
    moreover have "pos_toString js_repr x = nat_to_digits (nat \<lfloor>x\<rfloor>)"
      unfolding pos_toString_def by (rule if_P) (rule True)
    ultimately show ?thesis using assms(1) by (simp only: parseFloat_digits)
  next
    case False
    have "pos_toString js_repr x = js_repr x"
      unfolding pos_toString_def by (rule if_not_P) (rule False)
    then show ?thesis using js_repr_roundtrip(1) [OF assms] by (simp only:)
  qed
  show "\<exists>c t. pos_toString js_repr x = c # t \<and> is_digit c"
  proof (cases "of_int \<lfloor>x\<rfloor> = x \<and> x < 2 ^ 53")
    case True
    obtain d ds where "nat_to_digits (nat \<lfloor>x\<rfloor>) = digit_char d # ds" "d < 10"
      using nat_to_digits_hd by blast
    moreover have "pos_toString js_repr x = nat_to_digits (nat \<lfloor>x\<rfloor>)"
      unfolding pos_toString_def by (rule if_P) (rule True)
    ultimately show ?thesis by (simp add: digit_char_props(1))
  next
    case False
    have "pos_toString js_repr x = js_repr x"
      unfolding pos_toString_def by (rule if_not_P) (rule False)
    then show ?thesis using js_repr_roundtrip(2) [OF assms] by (simp only:)
  qed
qed

text \<open>The text of a number reads back as the number.\<close>

lemma toString_roundtrip:
  assumes "is_double n"
  shows "parseFloat (number_toString js_repr n) = n"
proof (cases n)
  case (Num x)
  with assms have dbl: "round_double x = Num x" by simp
  consider "x = 0" | "0 < x" | "x < 0" by linarith
  then show ?thesis
  proof cases
    case 1
    have "parseFloat ''0'' = Num 0"
      by (simp add: parseFloat_def split_sign_def is_ws_def is_digit_def digits_val_def
            digit_val_def exponent_part_def round_double_def)
    with 1 show ?thesis by (simp add: Num number_toString_def)
  next
    case 2
    with pos_toString_roundtrip(1) [OF dbl 2] show ?thesis
      by (simp add: Num number_toString_def)
  next
    case 3
    then have pos: "0 < - x" by simp
    from round_double_minus [OF dbl] have dbl': "round_double (- x) = Num (- x)" .
    from pos_toString_roundtrip [OF dbl' pos]
    obtain c t where rt: "parseFloat (pos_toString js_repr (- x)) = Num (- x)"
      and hd: "pos_toString js_repr (- x) = c # t" and c: "is_digit c" by blast
    from parse_minus [OF c, of t] obtain V where v1: "parseFloat (c # t) = round_double V"
      and v2: "parseFloat (CHR ''-'' # c # t) = round_double (- V)" by blast
    from rt have "round_double V = Num (- x)" unfolding hd v1 .
    from round_double_minus [OF this] have "parseFloat (CHR ''-'' # c # t) = Num x"
      unfolding v2 by simp
    with 3 show ?thesis by (simp add: Num number_toString_def hd)
  qed
next
  case PosInf
  then show ?thesis by (simp add: number_toString_def parseFloat_def split_sign_def is_ws_def)
next
  case NegInf
  then show ?thesis by (simp add: number_toString_def parseFloat_def split_sign_def is_ws_def)
next
  case NaN
  then show ?thesis
    by (simp add: number_toString_def parseFloat_def split_sign_def is_ws_def is_digit_def)
qed

section \<open>The amount set by voice\<close>

lemma round_double_250: "round_double 250 = Num 250"
  by (rule round_double_eval [where e = 7 and m = 8796093022208000]) simp_all

lemma parseFloat_250: "parseFloat ''250'' = Num 250"
  by (simp add: parseFloat_def split_sign_def is_ws_def is_digit_def digits_val_def
        digit_val_def exponent_part_def round_double_250)

lemma toString_250: "number_toString repr (Num 250) = ''250''"
  by (simp add: number_toString_def pos_toString_def digit_char_def nat_to_digits.simps)

lemma recompute_positive:
  assumes "parseFloat (mrpInput s) = n" "gt_zero n"
  shows "results (recompute s) = Some (computeRows n (calculationMode s))"
proof -
  from assms(2) have "\<not> isNaN n" by (cases n) simp_all
  with assms show ?thesis by (simp add: recompute_def calculate_def Let_def)
qed

text \<open>The rows for amount 250, the quotes that follow \<open>updateMrp(250)\<close>.\<close>

lemma rows_at_250:
  "newMrp (row12 (computeRows (Num 250) Original)) = Num (1875 / 8)"
  "gstAmount (row12 (computeRows (Num 250) Original))
     = Num (5026338869833143 / 562949953421312)"
  "newMrp (row18 (computeRows (Num 250) Original))
     = Num (7826763571160679 / 35184372088832)"
  "gstAmount (row18 (computeRows (Num 250) Original))
     = Num (4770598748136033 / 562949953421312)"
  by (simp_all only: row12_computeRows row18_computeRows gstAmount_row finalTradePrice_row
        intermediateTradePrice_row newMrp_Original
        lit_1 lit_100 lit_105 lit_625 lit_1102 lit_080 lit_005 factor_105
        ratio_12 keep_12 ratio_18 keep_18
        new_12_250 inter_12_250 final_12_250 gst_12_250
        new_18_250 inter_18_250 final_18_250 gst_18_250)

text \<open>The amount \<open>12.5\<close>: three digits are needed, and the text is \<open>12.5\<close>.\<close>

lemma round_double_samples:
  "round_double 10 = Num 10" "round_double 20 = Num 20" "round_double 12 = Num 12"
  "round_double 13 = Num 13" "round_double (25 / 2) = Num (25 / 2)" "round_double 5 = Num 5"
proof -
  show "round_double 10 = Num 10"
    by (rule round_double_eval [where e = 3 and m = 5629499534213120]) simp_all
  show "round_double 20 = Num 20"
    by (rule round_double_eval [where e = 4 and m = 5629499534213120]) simp_all
  show "round_double 12 = Num 12"
    by (rule round_double_eval [where e = 3 and m = 6755399441055744]) simp_all
  show "round_double 13 = Num 13"
    by (rule round_double_eval [where e = 3 and m = 7318349394477056]) simp_all
  show "round_double (25 / 2) = Num (25 / 2)"
    by (rule round_double_eval [where e = 3 and m = 7036874417766400]) simp_all
  show "round_double 5 = Num 5"
    by (rule round_double_eval [where e = 2 and m = 5629499534213120]) simp_all
qed

lemma dec_exp_12_5: "dec_exp (25 / 2) = 2"
  by (simp add: dec_exp.simps [of "25 / 2"] dec_exp.simps [of "5 / 4"])

lemma pick_12_5:
  "pick (25 / 2) 1 = None" "pick (25 / 2) 0 = None" "pick (25 / 2) (- 1) = Some 125"
  by (simp_all add: pick_def Let_def reads_as_def round_double_samples)

lemma shortest_12_5: "shortest (25 / 2) 2 1 = (125, - 1)"
  by ((subst shortest.simps, simp add: pick_12_5)+)

lemma toString_12_5: "number_toString js_repr (Num (25 / 2)) = ''12.5''"
proof -
  have d: "nat_to_digits 125 = ''125''"
    by (simp add: nat_to_digits.simps digit_char_def)
  have "js_repr (25 / 2) = ''12.5''"
    unfolding js_repr_def dec_exp_12_5 shortest_12_5
    by (simp add: d strip_zeros_def format_digits_def)
  then show ?thesis by (simp add: number_toString_def pos_toString_def)
qed

text \<open>
  Two amounts in scientific notation: \<open>10 ^ 21\<close>, the first power of ten beyond the
  positional range, and the double nearest to \<open>10 powi (- 7)\<close>, which lies below it.
\<close>

lemma dec_exp_pow10: "dec_exp (10 ^ n) = int n + 1"
proof (induction n)
  case 0
  show ?case by (simp add: dec_exp.simps [of 1])
next
  case (Suc n)
  have "(10::real) \<le> 10 ^ Suc n" using one_le_power [of "10::real" n] by simp
  moreover have "\<not> (10::real) ^ Suc n \<le> 0" by (simp add: not_le)
  ultimately have "dec_exp (10 ^ Suc n) = dec_exp (10 ^ Suc n / 10) + 1"
    by (subst dec_exp.simps) (simp only: if_True if_False)
  with Suc show ?case by simp
qed

lemma toString_1e21: "number_toString js_repr (Num (10 ^ 21)) = ''1e+21''"
proof -
  define x :: real where "x = 10 ^ 21"
  have r: "round_double x = Num x"
    unfolding x_def
    by (rule round_double_eval [where e = 69 and m = 7629394531250000]) simp_all
  have "real_of_int 1 * 10 powi 21 = x" by (simp add: x_def)
  then have v: "reads_as x 1 21" by (simp only: reads_as_def r)
  have f: "\<lfloor>x / 10 powi 21\<rfloor> = 1" unfolding x_def by simp
  have p: "pick x 21 = Some 1"
    unfolding pick_def Let_def f using v by (simp add: x_def)
  have e: "dec_exp x = 22" unfolding x_def dec_exp_pow10 by simp
  have s: "shortest x 22 1 = (1, 21)"
    by (subst shortest.simps) (simp add: p)
  have d: "nat_to_digits (Suc 0) = ''1''" "nat_to_digits 21 = ''21''"
    by (simp_all add: nat_to_digits.simps digit_char_def)
  have j: "js_repr x = ''1e+21''"
    unfolding js_repr_def e using s
    by (simp add: d strip_zeros_def format_digits_def exp_digits_def Let_def)
  have c: "\<not> (of_int \<lfloor>x\<rfloor> = x \<and> x < 2 ^ 53)" unfolding x_def by simp
  have "pos_toString js_repr x = js_repr x"
    unfolding pos_toString_def by (rule if_not_P) (rule c)
  moreover have "0 < x" by (simp add: x_def)
  ultimately have "number_toString js_repr (Num x) = ''1e+21''"
    by (simp add: number_toString_def j)
  then show ?thesis unfolding x_def .
qed

lemma toString_1e_7:
  "lit (1 / 10 ^ 7) = Num (944473296573929 / 9444732965739290427392)"
  "number_toString js_repr (Num (944473296573929 / 9444732965739290427392)) = ''1e-7''"
proof -
  define x :: real where "x = 944473296573929 / 9444732965739290427392"
  have r: "round_double (1 / 10 ^ 7) = Num x"
    unfolding x_def
    by (rule round_double_eval [where e = "- 24" and m = 7555786372591432]) simp_all
  then show "lit (1 / 10 ^ 7) = Num (944473296573929 / 9444732965739290427392)"
    by (simp add: lit_def x_def)
  have e: "dec_exp x = - 7"
    unfolding x_def by ((subst dec_exp.simps, simp)+)
  have "real_of_int 10 * 10 powi (- 8) = 1 / 10 ^ 7" by (simp add: power_int_minus)
  then have v: "reads_as x 10 (- 8)" by (simp only: reads_as_def r)
  have f: "\<lfloor>x / 10 powi (- 8)\<rfloor> = 9" unfolding x_def by (simp add: power_int_minus)
  have p: "pick x (- 8) = Some 10"
    unfolding pick_def Let_def f using v by (simp add: x_def power_int_minus)
  have s: "shortest x (- 7) 1 = (10, - 8)"
    by (subst shortest.simps) (simp add: p)
  have d: "nat_to_digits 10 = ''10''" "nat_to_digits 7 = ''7''"
    by (simp_all add: nat_to_digits.simps digit_char_def)
  have "js_repr x = ''1e-7''"
    unfolding js_repr_def e using s
    by (simp add: d strip_zeros_def format_digits_def exp_digits_def)
  then show "number_toString js_repr (Num (944473296573929 / 9444732965739290427392)) = ''1e-7''"
    by (simp add: number_toString_def pos_toString_def x_def)
qed

text \<open>The call \<open>updateMrp(250)\<close>: the amount text is \<open>250\<close>, and the rows are those for 250.\<close>

lemma updateMrp_250:
  "handle_call js_repr
     \<lparr>fc_id = i, fc_name = ''updateMrp'', fc_args = Some [(''amount'', JNumber (Num 250))]\<rparr>
     initial_app
     = Inr (initial_app\<lparr>mrpInput := ''250'',
              trace := [ToolResponse i ''updateMrp'' ''ok, updated value'']\<rparr>)"
  "results (recompute (initial_app\<lparr>mrpInput := ''250'',
              trace := [ToolResponse i ''updateMrp'' ''ok, updated value'']\<rparr>))
     = Some (computeRows (Num 250) Original)"
proof -
  show "handle_call js_repr
     \<lparr>fc_id = i, fc_name = ''updateMrp'', fc_args = Some [(''amount'', JNumber (Num 250))]\<rparr>
     initial_app
     = Inr (initial_app\<lparr>mrpInput := ''250'',
              trace := [ToolResponse i ''updateMrp'' ''ok, updated value'']\<rparr>)"
    by (simp add: handle_call_def then_do_def get_prop_def toString_250 initial_app_def)
  have "parseFloat (mrpInput (initial_app\<lparr>mrpInput := ''250'',
      trace := [ToolResponse i ''updateMrp'' ''ok, updated value'']\<rparr>)) = Num 250"
    by (simp add: parseFloat_250)
  from recompute_positive [OF this]
  show "results (recompute (initial_app\<lparr>mrpInput := ''250'',
              trace := [ToolResponse i ''updateMrp'' ''ok, updated value'']\<rparr>))
     = Some (computeRows (Num 250) Original)"
    by (simp add: initial_app_def)
qed

text \<open>
  C4, as the claim states it, fails twice. \<open>updateAmount\<close> is not a name the handler
  knows: a call \<open>updateAmount(250)\<close> leaves the amount text at \<open>100\<close> and is not
  acknowledged. And under the name the code does handle, \<open>updateMrp\<close>, a numeric amount
  need not lead to quotes: \<open>updateMrp(-5)\<close> sets the amount text to \<open>-5\<close> and is
  acknowledged, and the recomputation that follows shows no quotes at all.
\<close>

theorem updateAmount_counterexample:
  "handle_call js_repr
     \<lparr>fc_id = ''c1'', fc_name = ''updateAmount'', fc_args = Some [(''amount'', JNumber (Num 250))]\<rparr>
     initial_app = Inr initial_app \<and>
   mrpInput initial_app = ''100'' \<and> acks_for ''c1'' (trace initial_app) = [] \<and>
   (case handle_call js_repr
           \<lparr>fc_id = ''c2'', fc_name = ''updateMrp'',
             fc_args = Some [(''amount'', JNumber (Num (- 5)))]\<rparr> initial_app of
      Inl e \<Rightarrow> False
    | Inr s' \<Rightarrow> mrpInput s' = ''-5'' \<and>
        trace s' = [ToolResponse ''c2'' ''updateMrp'' ''ok, updated value''] \<and>
        results (recompute s') = None)"
proof -
  have t: "number_toString js_repr (Num (- 5)) = ''-5''"
    by (simp add: number_toString_def pos_toString_def nat_to_digits.simps digit_char_def)
  from round_double_minus [OF round_double_samples(6)]
  have "parseFloat ''-5'' = Num (- 5)"
    by (simp add: parseFloat_def split_sign_def is_ws_def is_digit_def digits_val_def
          digit_val_def exponent_part_def)
  then have r: "results (recompute (initial_app\<lparr>mrpInput := ''-5'',
      trace := [ToolResponse ''c2'' ''updateMrp'' ''ok, updated value'']\<rparr>)) = None"
    by (simp add: recompute_def)
  have h: "handle_call js_repr
      \<lparr>fc_id = ''c2'', fc_name = ''updateMrp'', fc_args = Some [(''amount'', JNumber (Num (- 5)))]\<rparr>
      initial_app
    = Inr (initial_app\<lparr>mrpInput := ''-5'',
        trace := [ToolResponse ''c2'' ''updateMrp'' ''ok, updated value'']\<rparr>)"
    by (simp add: handle_call_def then_do_def get_prop_def t initial_app_def)
  show ?thesis
    unfolding h using r by (simp add: handle_call_def initial_app_def acks_for_def)
qed

text \<open>
  C4, amended. The tool is declared and handled under the name \<open>updateMrp\<close>. A call of
  that name with a number as amount (any value of the type: a double, an infinity or NaN)
  sets the amount text to the rendering of the number and sends the acknowledgment
  "ok, updated value" under the call's id and name, changing nothing else. The text reads
  back as the number, so the recomputation that follows yields the rows for that amount in
  the current mode when the amount is greater than zero, and no rows when it is zero,
  negative or NaN.
\<close>

theorem updateMrp_sets_amount:
  "fc_name fc = ''updateMrp'' \<longrightarrow>
   get_prop (fc_args fc) ''amount'' = Inr (JNumber n) \<longrightarrow>
   is_double n \<longrightarrow>
   (case handle_call js_repr fc s of
      Inl e \<Rightarrow> False
    | Inr s' \<Rightarrow>
        s' = s\<lparr>mrpInput := number_toString js_repr n,
               trace := trace s @ [ToolResponse (fc_id fc) ''updateMrp'' ''ok, updated value'']\<rparr> \<and>
        acks_for (fc_id fc) (trace s')
          = acks_for (fc_id fc) (trace s)
              @ [ToolResponse (fc_id fc) ''updateMrp'' ''ok, updated value''] \<and>
        parseFloat (mrpInput s') = n \<and>
        results (recompute s')
          = (if gt_zero n then Some (computeRows n (calculationMode s)) else None))"
proof (intro impI)
  assume nm: "fc_name fc = ''updateMrp''"
    and am: "get_prop (fc_args fc) ''amount'' = Inr (JNumber n)"
    and dbl: "is_double n"
  define s' where "s' = s\<lparr>mrpInput := number_toString js_repr n,
      trace := trace s @ [ToolResponse (fc_id fc) ''updateMrp'' ''ok, updated value'']\<rparr>"
  have h: "handle_call js_repr fc s = Inr s'"
    unfolding s'_def by (rule handle_call_updateMrp [OF nm am])
  have p: "parseFloat (mrpInput s') = n"
    using toString_roundtrip [OF dbl] by (simp add: s'_def)
  have a: "acks_for (fc_id fc) (trace s')
      = acks_for (fc_id fc) (trace s) @ [ToolResponse (fc_id fc) ''updateMrp'' ''ok, updated value'']"
    by (simp add: s'_def acks_for_def)
  have r: "results (recompute s')
      = (if gt_zero n then Some (computeRows n (calculationMode s)) else None)"
  proof (cases "gt_zero n")
    case True
    from recompute_positive [OF p True] True show ?thesis by (simp add: s'_def)
  next
    case False
    with p show ?thesis by (simp add: recompute_def)
  qed
  show "case handle_call js_repr fc s of
      Inl e \<Rightarrow> False
    | Inr s' \<Rightarrow>
        s' = s\<lparr>mrpInput := number_toString js_repr n,
               trace := trace s @ [ToolResponse (fc_id fc) ''updateMrp'' ''ok, updated value'']\<rparr> \<and>
        acks_for (fc_id fc) (trace s')
          = acks_for (fc_id fc) (trace s)
              @ [ToolResponse (fc_id fc) ''updateMrp'' ''ok, updated value''] \<and>
        parseFloat (mrpInput s') = n \<and>
        results (recompute s')
          = (if gt_zero n then Some (computeRows n (calculationMode s)) else None)"
    unfolding h sum.case using p a r by (simp add: s'_def)
qed

theorem updateMrp_sets_amount_witness:
  "fc_name \<lparr>fc_id = ''c3'', fc_name = ''updateMrp'',
            fc_args = Some [(''amount'', JNumber (Num (25 / 2)))]\<rparr> = ''updateMrp'' \<and>
   get_prop (fc_args \<lparr>fc_id = ''c3'', fc_name = ''updateMrp'',
                      fc_args = Some [(''amount'', JNumber (Num (25 / 2)))]\<rparr>) ''amount''
     = Inr (JNumber (Num (25 / 2))) \<and>
   is_double (Num (25 / 2)) \<and> gt_zero (Num (25 / 2)) \<and>
   (case handle_call js_repr
           \<lparr>fc_id = ''c3'', fc_name = ''updateMrp'',
             fc_args = Some [(''amount'', JNumber (Num (25 / 2)))]\<rparr> initial_app of
      Inl e \<Rightarrow> False
    | Inr s' \<Rightarrow> mrpInput s' = ''12.5'' \<and>
        trace s' = [ToolResponse ''c3'' ''updateMrp'' ''ok, updated value''] \<and>
        parseFloat ''12.5'' = Num (25 / 2) \<and>
        results (recompute s') = Some (computeRows (Num (25 / 2)) Original))"
  using updateMrp_sets_amount [where
      fc = "\<lparr>fc_id = ''c3'', fc_name = ''updateMrp'',
              fc_args = Some [(''amount'', JNumber (Num (25 / 2)))]\<rparr>"
      and n = "Num (25 / 2)" and s = initial_app]
  by (simp add: get_prop_def toString_12_5 round_double_samples initial_app_def
        split: sum.splits)

section \<open>The voice path and the manual pattern\<close>

lemma negative_text:
  assumes "x < 0"
  shows "number_toString repr (Num x) \<noteq> []"
    and "\<not> decimal_pattern (number_toString repr (Num x))"
  using assms by (simp_all add: number_toString_def decimal_pattern_def is_digit_def)

lemma decimal_pattern_chars:
  assumes "decimal_pattern t"
  shows "\<forall>c \<in> set t. is_digit c \<or> c = CHR ''.''"
proof -
  define r where "r = dropWhile is_digit t"
  have t: "t = takeWhile is_digit t @ r" by (simp add: r_def)
  have h: "\<forall>c \<in> set (takeWhile is_digit t). is_digit c"
    by (auto dest: set_takeWhileD)
  have "\<forall>c \<in> set r. is_digit c \<or> c = CHR ''.''"
  proof (cases r)
    case Nil
    then show ?thesis by simp
  next
    case (Cons c r')
    with assms show ?thesis
      by (auto simp add: decimal_pattern_def r_def [symmetric]
            split: if_splits)
  qed
  with h show ?thesis by (subst t) auto
qed

lemma exponent_text:
  assumes "CHR ''e'' \<in> set t"
  shows "\<not> decimal_pattern t"
proof
  assume "decimal_pattern t"
  from decimal_pattern_chars [OF this] assms
  have "is_digit CHR ''e'' \<or> CHR ''e'' = CHR ''.''" by blast
  then show False by (simp add: is_digit_def)
qed

text \<open>
  C10. An \<open>updateMrp\<close> call with a numeric amount commits the rendering of the amount as
  the amount text, whatever it is. For a negative amount, and for any amount rendered with
  an exponent, that text is one the manual input handler refuses: it is not empty, it does
  not match the pattern, and \<open>handleInputChange\<close> ignores it.
\<close>

theorem voice_bypasses_pattern:
  "(fc_name fc = ''updateMrp'' \<longrightarrow>
    get_prop (fc_args fc) ''amount'' = Inr (JNumber n) \<longrightarrow>
    (case handle_call repr fc s of
       Inl e \<Rightarrow> False
     | Inr s' \<Rightarrow> mrpInput s' = number_toString repr n)) \<and>
   (x < 0 \<longrightarrow>
      number_toString repr (Num x) \<noteq> [] \<and>
      \<not> decimal_pattern (number_toString repr (Num x)) \<and>
      handleInputChange (number_toString repr (Num x)) s = s) \<and>
   (CHR ''e'' \<in> set (number_toString repr n) \<longrightarrow>
      \<not> decimal_pattern (number_toString repr n) \<and>
      handleInputChange (number_toString repr n) s = s)"
proof -
  have "CHR ''e'' \<in> set (number_toString repr n) \<Longrightarrow> number_toString repr n \<noteq> []"
    by auto
  then show ?thesis
    by (simp add: handle_call_updateMrp negative_text exponent_text handleInputChange_def)
qed

theorem voice_bypasses_pattern_witness:
  "fc_name \<lparr>fc_id = ''c4'', fc_name = ''updateMrp'',
            fc_args = Some [(''amount'', JNumber (Num (- (10 ^ 21))))]\<rparr> = ''updateMrp'' \<and>
   get_prop (fc_args \<lparr>fc_id = ''c4'', fc_name = ''updateMrp'',
                      fc_args = Some [(''amount'', JNumber (Num (- (10 ^ 21))))]\<rparr>) ''amount''
     = Inr (JNumber (Num (- (10 ^ 21)))) \<and>
   (- (10 ^ 21) :: real) < 0 \<and>
   number_toString (\<lambda>x. ''1e+21'') (Num (- (10 ^ 21))) = ''-1e+21'' \<and>
   CHR ''e'' \<in> set (number_toString (\<lambda>x. ''1e+21'') (Num (- (10 ^ 21)))) \<and>
   (case handle_call (\<lambda>x. ''1e+21'')
           \<lparr>fc_id = ''c4'', fc_name = ''updateMrp'',
             fc_args = Some [(''amount'', JNumber (Num (- (10 ^ 21))))]\<rparr> initial_app of
      Inl e \<Rightarrow> False
    | Inr s' \<Rightarrow> mrpInput s' = ''-1e+21'') \<and>
   \<not> decimal_pattern ''-1e+21'' \<and>
   handleInputChange ''-1e+21'' initial_app = initial_app"
proof -
  have t: "number_toString (\<lambda>x. ''1e+21'') (Num (- (10 ^ 21))) = ''-1e+21''"
    by (simp add: number_toString_def pos_toString_def)
  from voice_bypasses_pattern [where
      fc = "\<lparr>fc_id = ''c4'', fc_name = ''updateMrp'',
        fc_args = Some [(''amount'', JNumber (Num (- (10 ^ 21))))]\<rparr>"
      and n = "Num (- (10 ^ 21))" and repr = "\<lambda>x. ''1e+21''" and s = initial_app
      and x = "- (10 ^ 21)"]
  show ?thesis
    unfolding t by (simp add: get_prop_def split: sum.splits)
qed

end
